theory Spec2Isabelle
  imports Main "HOL-Library.Sublist"
begin

chapter \<open>The embedding\<close>

section \<open>JavaScript strings\<close>

text \<open>
  A JavaScript string is a sequence of UTF-16 code units. It is modelled as the list of
  the code units' numbers, so that the arrow of the backlink (U+2190), the line
  terminators U+2028 and U+2029 and the non-ASCII white space of \<open>trimStart\<close> are single
  elements, as they are for \<open>indexOf\<close>, \<open>substring\<close> and the regular expression of the
  source. \<open>js\<close> turns an ASCII literal into such a string.
\<close>

type_synonym jsstring = "nat list"

definition js :: "string \<Rightarrow> jsstring" where
  "js s = map of_char s"

definition startsWith :: "jsstring \<Rightarrow> jsstring \<Rightarrow> bool" where
  "startsWith s p = prefix p s"

definition endsWith :: "jsstring \<Rightarrow> jsstring \<Rightarrow> bool" where
  "endsWith s p = suffix p s"

text \<open>\<open>search p s\<close> is the first position at which \<open>p\<close> occurs in \<open>s\<close>.\<close>

fun search :: "jsstring \<Rightarrow> jsstring \<Rightarrow> nat option" where
  "search p [] = (if p = [] then Some 0 else None)"
| "search p (x # xs) =
     (if prefix p (x # xs) then Some 0 else map_option Suc (search p xs))"

text \<open>\<open>String.prototype.indexOf\<close>: \<open>-1\<close> when the pattern does not occur.\<close>

definition indexOf :: "jsstring \<Rightarrow> jsstring \<Rightarrow> int" where
  "indexOf s p = (case search p s of None \<Rightarrow> -1 | Some i \<Rightarrow> int i)"

text \<open>\<open>indexOf\<close> with a start position, which JavaScript clamps to the string.\<close>

definition indexOfFrom :: "jsstring \<Rightarrow> jsstring \<Rightarrow> int \<Rightarrow> int" where
  "indexOfFrom s p k =
     (let k' = nat (max 0 (min k (int (length s))))
      in case search p (drop k' s) of None \<Rightarrow> -1 | Some i \<Rightarrow> int (k' + i))"

definition includesStr :: "jsstring \<Rightarrow> jsstring \<Rightarrow> bool" where
  "includesStr s p = (search p s \<noteq> None)"

text \<open>\<open>searchLast p s\<close> is the last position at which \<open>p\<close> occurs in \<open>s\<close>.\<close>

fun searchLast :: "jsstring \<Rightarrow> jsstring \<Rightarrow> nat option" where
  "searchLast p [] = (if p = [] then Some 0 else None)"
| "searchLast p (x # xs) =
     (case searchLast p xs of
        Some i \<Rightarrow> Some (Suc i)
      | None \<Rightarrow> if prefix p (x # xs) then Some 0 else None)"

definition lastIndexOf :: "jsstring \<Rightarrow> jsstring \<Rightarrow> int" where
  "lastIndexOf s p = (case searchLast p s of None \<Rightarrow> -1 | Some i \<Rightarrow> int i)"

text \<open>
  \<open>String.prototype.substring\<close>: both arguments are clamped to the string and swapped
  when the first is the larger one.
\<close>

definition substring :: "jsstring \<Rightarrow> int \<Rightarrow> int \<Rightarrow> jsstring" where
  "substring s a b =
     (let n = int (length s);
          a' = max 0 (min a n);
          b' = max 0 (min b n);
          lo = min a' b';
          hi = max a' b'
      in take (nat (hi - lo)) (drop (nat lo) s))"

definition substringFrom :: "jsstring \<Rightarrow> int \<Rightarrow> jsstring" where
  "substringFrom s a = substring s a (int (length s))"

text \<open>
  \<open>String.prototype.split\<close> with a separator of one code unit (the source only splits
  at \<open>/\<close>, \<open>:\<close> and the line feed): the empty string splits into one empty piece.
\<close>

fun splitOn :: "nat \<Rightarrow> jsstring \<Rightarrow> jsstring list" where
  "splitOn c [] = [[]]"
| "splitOn c (x # xs) =
     (if x = c then [] # splitOn c xs
      else (case splitOn c xs of
              [] \<Rightarrow> [[x]]
            | p # ps \<Rightarrow> (x # p) # ps))"

text \<open>\<open>Array.prototype.join\<close> on an array of strings.\<close>

fun joinWith :: "jsstring \<Rightarrow> jsstring list \<Rightarrow> jsstring" where
  "joinWith sep [] = []"
| "joinWith sep [p] = p"
| "joinWith sep (p # q # ps) = p @ sep @ joinWith sep (q # ps)"

text \<open>
  The white space and the line terminators of ECMAScript, which \<open>trim\<close> and \<open>trimStart\<close>
  remove: TAB, LF, VT, FF, CR, SP, NBSP, U+1680, U+2000 to U+200A, U+2028, U+2029,
  U+202F, U+205F, U+3000 and U+FEFF.
\<close>

definition isWhiteSpace :: "nat \<Rightarrow> bool" where
  "isWhiteSpace c =
     (c = 9 \<or> c = 10 \<or> c = 11 \<or> c = 12 \<or> c = 13 \<or> c = 32 \<or> c = 160 \<or> c = 5760
      \<or> (8192 \<le> c \<and> c \<le> 8202) \<or> c = 8232 \<or> c = 8233 \<or> c = 8239 \<or> c = 8287
      \<or> c = 12288 \<or> c = 65279)"

definition trimStart :: "jsstring \<Rightarrow> jsstring" where
  "trimStart s = dropWhile isWhiteSpace s"

definition trimEnd :: "jsstring \<Rightarrow> jsstring" where
  "trimEnd s = rev (dropWhile isWhiteSpace (rev s))"

definition trim :: "jsstring \<Rightarrow> jsstring" where
  "trim s = trimEnd (trimStart s)"

text \<open>
  The regular expression \<open>/^\<leftarrow> \[\[.*?\]\]\n\n/\<close> of the source. The dot matches every
  code unit but a line terminator (LF, CR, U+2028, U+2029). \<open>lazyThen lit s\<close> is the
  lazy \<open>.*?\<close> followed by the literal \<open>lit\<close>: the literal is tried at each position
  before the dot takes one more code unit; the result is the length of the match.
\<close>

definition isLineTerminator :: "nat \<Rightarrow> bool" where
  "isLineTerminator c = (c = 10 \<or> c = 13 \<or> c = 8232 \<or> c = 8233)"

fun lazyThen :: "jsstring \<Rightarrow> jsstring \<Rightarrow> nat option" where
  "lazyThen lit [] = (if lit = [] then Some 0 else None)"
| "lazyThen lit (x # xs) =
     (if prefix lit (x # xs) then Some (length lit)
      else if isLineTerminator x then None
      else map_option Suc (lazyThen lit xs))"

definition backlinkOpen :: jsstring where
  "backlinkOpen = 8592 # js '' [[''"

definition backlinkClose :: jsstring where
  "backlinkClose = js '']]\<newline>\<newline>''"

text \<open>The length of the match of the backlink pattern at the start of \<open>s\<close>, if it matches.\<close>

definition backlinkPattern :: "jsstring \<Rightarrow> nat option" where
  "backlinkPattern s =
     (if prefix backlinkOpen s
      then map_option (\<lambda>n. length backlinkOpen + n)
             (lazyThen backlinkClose (drop (length backlinkOpen) s))
      else None)"

section \<open>The content annotation codec (linkRewrite.ts)\<close>

text \<open>
  The functions below follow the copy of \<open>linkRewrite.ts\<close> that \<open>main.ts\<close> imports, the
  one with \<open>addBacklink\<close> and the four options of \<open>processFileContent\<close>.
\<close>

record FileMetadata =
  meta_owner :: jsstring
  meta_repo :: jsstring
  meta_branch :: jsstring
  meta_path :: jsstring
  meta_githubUrl :: jsstring

text \<open>
  The header block. \<open>now\<close> is the value of \<open>new Date().toISOString()\<close> at the call.
\<close>

definition frontmatterBlock :: "jsstring \<Rightarrow> FileMetadata \<Rightarrow> jsstring" where
  "frontmatterBlock now m =
     js ''---\<newline>github_repo: '' @ meta_owner m @ js ''/'' @ meta_repo m @
     js ''\<newline>github_path: '' @ meta_path m @
     js ''\<newline>github_url: '' @ meta_githubUrl m @
     js ''\<newline>synced_at: '' @ now @
     js ''\<newline>readonly: true\<newline>---\<newline>\<newline>''"

definition addFrontmatterIfMissing :: "jsstring \<Rightarrow> jsstring \<Rightarrow> FileMetadata \<Rightarrow> jsstring" where
  "addFrontmatterIfMissing now content m =
     (if startsWith content (js ''---\<newline>'') then content
      else frontmatterBlock now m @ content)"

definition bannerTitle :: jsstring where
  "bannerTitle = js ''> [!WARNING] Read-Only''"

definition bannerBlock :: "FileMetadata \<Rightarrow> jsstring" where
  "bannerBlock m =
     bannerTitle @
     js ''\<newline>> This file is synced from GitHub. Any local changes will be overwritten.'' @
     js ''\<newline>> View source: ['' @ meta_owner m @ js ''/'' @ meta_repo m @ js ''](''
       @ meta_githubUrl m @ js '')\<newline>\<newline>''"

definition addReadonlyBanner :: "jsstring \<Rightarrow> FileMetadata \<Rightarrow> jsstring" where
  "addReadonlyBanner content m =
     (if startsWith content (js ''---\<newline>'') then
        (let frontmatterEnd = indexOf content (js ''\<newline>---\<newline>'') + 5;
             frontmatter = substring content 0 frontmatterEnd;
             remainingContent = substringFrom content frontmatterEnd
         in if includesStr remainingContent bannerTitle then content
            else frontmatter @ bannerBlock m @ remainingContent)
      else if includesStr content bannerTitle then content
      else bannerBlock m @ content)"

definition addBacklink :: "jsstring \<Rightarrow> jsstring \<Rightarrow> jsstring" where
  "addBacklink content backLinkTarget =
     (let backlink = 8592 # js '' [['' @ backLinkTarget @ js '']]\<newline>\<newline>'';
          insertPosition0 =
            (if startsWith content (js ''---\<newline>'') then
               (let frontmatterEnd = indexOf content (js ''\<newline>---\<newline>'')
                in if frontmatterEnd \<noteq> -1 then frontmatterEnd + 5 else 0)
             else 0);
          remainingContent = substringFrom content insertPosition0;
          insertPosition =
            (if startsWith remainingContent bannerTitle then
               (let bannerEnd = indexOf remainingContent (js ''\<newline>\<newline>'')
                in if bannerEnd \<noteq> -1 then insertPosition0 + (bannerEnd + 2)
                   else insertPosition0)
             else insertPosition0);
          checkContent = substringFrom content insertPosition
      in if backlinkPattern checkContent \<noteq> None then content
         else substring content 0 insertPosition @ backlink
                @ substringFrom content insertPosition)"

record ProcessOptions =
  optAddFrontmatter :: bool
  optAddReadonlyBanner :: bool
  optAddBacklinks :: bool
  optBacklinkTarget :: "jsstring option"

text \<open>
  \<open>options.addBacklinks && options.backlinkTarget\<close>: an absent target and the empty
  string are both falsy.
\<close>

definition processFileContent ::
  "jsstring \<Rightarrow> jsstring \<Rightarrow> FileMetadata \<Rightarrow> ProcessOptions \<Rightarrow> jsstring" where
  "processFileContent now content m opts =
     (let c1 = (if optAddFrontmatter opts then addFrontmatterIfMissing now content m
                else content);
          c2 = (if optAddReadonlyBanner opts then addReadonlyBanner c1 m else c1)
      in case optBacklinkTarget opts of
           None \<Rightarrow> c2
         | Some t \<Rightarrow> if optAddBacklinks opts \<and> t \<noteq> [] then addBacklink c2 t else c2)"

definition stripSyncedContent :: "jsstring \<Rightarrow> jsstring" where
  "stripSyncedContent content =
     (let s1 =
            (if startsWith content (js ''---\<newline>'') then
               (let frontmatterEnd = indexOf content (js ''\<newline>---\<newline>'')
                in if frontmatterEnd \<noteq> -1 then
                     (let frontmatter = substring content 4 frontmatterEnd
                      in if includesStr frontmatter (js ''github_repo:'')
                         then substringFrom content (frontmatterEnd + 5)
                         else content)
                   else content)
             else content);
          bannerStart = indexOf s1 bannerTitle;
          s2 =
            (if bannerStart \<noteq> -1 then
               (let bannerEnd = indexOfFrom s1 (js ''\<newline>\<newline>'') bannerStart
                in if bannerEnd \<noteq> -1
                   then substring s1 0 bannerStart @ substringFrom s1 (bannerEnd + 2)
                   else s1)
             else s1);
          s3 = (case backlinkPattern s2 of None \<Rightarrow> s2 | Some n \<Rightarrow> drop n s2)
      in trimStart s3)"

text \<open>
  The loop of \<open>extractGitHubMetadata\<close> over the lines of the header: the state is the
  triple of \<open>githubRepo\<close>, \<open>githubPath\<close> and \<open>githubUrl\<close>, each the empty string at first.
\<close>

definition metadataLine ::
  "jsstring \<times> jsstring \<times> jsstring \<Rightarrow> jsstring \<Rightarrow> jsstring \<times> jsstring \<times> jsstring" where
  "metadataLine st line =
     (case st of (githubRepo, githubPath, githubUrl) \<Rightarrow>
        (let parts = splitOn 58 line;
             key = hd parts;
             valueParts = tl parts;
             v = trim (joinWith (js '':'') valueParts)
         in if trim key = js ''github_repo'' then (v, githubPath, githubUrl)
            else if trim key = js ''github_path'' then (githubRepo, v, githubUrl)
            else if trim key = js ''github_url'' then (githubRepo, githubPath, v)
            else (githubRepo, githubPath, githubUrl)))"

text \<open>
  \<open>urlParts[blobIndex + 1]\<close> is undefined past the end of the array and falsy when it
  is the empty string; \<open>main\<close> is then the branch.
\<close>

fun branchOfUrl :: "jsstring list \<Rightarrow> jsstring" where
  "branchOfUrl [] = js ''main''"
| "branchOfUrl (p # ps) =
     (if p = js ''blob''
      then (case ps of [] \<Rightarrow> js ''main'' | q # _ \<Rightarrow> if q \<noteq> [] then q else js ''main'')
      else branchOfUrl ps)"

definition extractGitHubMetadata :: "jsstring \<Rightarrow> FileMetadata option" where
  "extractGitHubMetadata content =
     (if \<not> startsWith content (js ''---\<newline>'') then None
      else
        (let frontmatterEnd = indexOf content (js ''\<newline>---\<newline>'')
         in if frontmatterEnd = -1 then None
            else
              (let frontmatter = substring content 4 frontmatterEnd;
                   lines = splitOn 10 frontmatter
               in case foldl metadataLine ([], [], []) lines of
                    (githubRepo, githubPath, githubUrl) \<Rightarrow>
                      if githubRepo = [] \<or> githubPath = [] \<or> githubUrl = [] then None
                      else
                        (case splitOn 47 githubRepo of
                           o1 # r1 # _ \<Rightarrow>
                             if o1 = [] \<or> r1 = [] then None
                             else Some \<lparr>meta_owner = o1, meta_repo = r1,
                                        meta_branch = branchOfUrl (splitOn 47 githubUrl),
                                        meta_path = githubPath, meta_githubUrl = githubUrl\<rparr>
                         | _ \<Rightarrow> None))))"

section \<open>The remote API client (github.ts)\<close>

record GitHubRepo =
  repo_name :: jsstring
  repo_full_name :: jsstring
  repo_owner_login :: jsstring
  repo_default_branch :: jsstring
  repo_private :: bool
  repo_fork :: bool
  repo_archived :: bool
  repo_clone_url :: jsstring

datatype itemType = Blob | Tree

record GitHubTreeItem =
  item_path :: jsstring
  item_mode :: jsstring
  item_type :: itemType
  item_sha :: jsstring
  item_size :: "nat option"
  item_url :: jsstring

datatype blobEncoding = Base64 | Utf8

record GitHubBlob =
  blob_sha :: jsstring
  blob_content :: jsstring
  blob_encoding :: blobEncoding
  blob_size :: nat

text \<open>
  Every exception of the source is a value of \<open>syncError\<close>: a failed request of the
  remote API (or a failed \<open>atob\<close>) and a failed call of the vault.
\<close>

datatype syncError = ApiFailure | VaultFailure

text \<open>
  The requests of the client are parameters: \<open>api_getBranchSHA\<close>, \<open>api_getTree\<close> and
  \<open>api_getBlob\<close> stand for the three GET requests (owner, repository and branch or
  object id), \<open>api_atob\<close> for the base64 decoder of the platform, which throws on
  malformed input, and \<open>api_toLowerCase\<close> for \<open>String.prototype.toLowerCase\<close>, which maps
  a string by the case tables of Unicode (the result can differ in length from the
  string).
\<close>

record GitHubAPI =
  api_getBranchSHA :: "jsstring \<Rightarrow> jsstring \<Rightarrow> jsstring \<Rightarrow> syncError + jsstring"
  api_getTree :: "jsstring \<Rightarrow> jsstring \<Rightarrow> jsstring \<Rightarrow> syncError + GitHubTreeItem list"
  api_getBlob :: "jsstring \<Rightarrow> jsstring \<Rightarrow> jsstring \<Rightarrow> syncError + GitHubBlob"
  api_atob :: "jsstring \<Rightarrow> jsstring option"
  api_toLowerCase :: "jsstring \<Rightarrow> jsstring"

definition perPage :: nat where
  "perPage = 100"

text \<open>
  The loop of \<open>getUserRepos\<close>. \<open>request page\<close> is the answer to the request of page
  \<open>page\<close> of the listing (an error when the request throws). The loop has no bound of
  its own, so it is a partial function: \<open>None\<close> is a loop that never ends. The result
  carries the numbers of the pages requested, in order.
\<close>

partial_function (option) getUserReposLoop ::
  "(nat \<Rightarrow> syncError + GitHubRepo list) \<Rightarrow> nat \<Rightarrow> GitHubRepo list \<Rightarrow> nat list
     \<Rightarrow> ((syncError + GitHubRepo list) \<times> nat list) option" where
  "getUserReposLoop request page repos requested =
     (case request page of
        Inl e \<Rightarrow> Some (Inl e, requested @ [page])
      | Inr pageRepos \<Rightarrow>
          if length pageRepos = 0 then Some (Inr repos, requested @ [page])
          else if length pageRepos < perPage
               then Some (Inr (repos @ pageRepos), requested @ [page])
          else getUserReposLoop request (page + 1) (repos @ pageRepos)
                 (requested @ [page]))"

definition getUserRepos ::
  "(nat \<Rightarrow> syncError + GitHubRepo list)
     \<Rightarrow> ((syncError + GitHubRepo list) \<times> nat list) option" where
  "getUserRepos request = getUserReposLoop request 1 [] []"

definition isMarkdownFile :: "jsstring \<Rightarrow> bool" where
  "isMarkdownFile p = (endsWith p (js ''.md'') \<or> endsWith p (js ''.mdx''))"

definition mediaExtensions :: "jsstring list" where
  "mediaExtensions =
     [js ''.png'', js ''.jpg'', js ''.jpeg'', js ''.gif'', js ''.svg'', js ''.webp'',
      js ''.bmp'', js ''.ico'', js ''.mp4'', js ''.mov'', js ''.avi'', js ''.webm'',
      js ''.mp3'', js ''.wav'', js ''.pdf'']"

definition isMediaFile :: "GitHubAPI \<Rightarrow> jsstring \<Rightarrow> bool" where
  "isMediaFile api p =
     (let ext = substringFrom (api_toLowerCase api p) (lastIndexOf p (js ''.''))
      in ext \<in> set mediaExtensions)"

definition getAllSyncableFiles ::
  "GitHubAPI \<Rightarrow> jsstring \<Rightarrow> jsstring \<Rightarrow> jsstring \<Rightarrow> bool
     \<Rightarrow> syncError + GitHubTreeItem list" where
  "getAllSyncableFiles api ownr rep brnch includeMedia =
     (case api_getBranchSHA api ownr rep brnch of
        Inl e \<Rightarrow> Inl e
      | Inr branchSHA \<Rightarrow>
          (case api_getTree api ownr rep branchSHA of
             Inl e \<Rightarrow> Inl e
           | Inr tree \<Rightarrow>
               Inr (filter
                      (\<lambda>item.
                         if item_type item \<noteq> Blob then False
                         else if endsWith (item_path item) (js ''.md'')
                                 \<or> endsWith (item_path item) (js ''.mdx'') then True
                         else if includeMedia \<and> isMediaFile api (item_path item) then True
                         else False)
                      tree)))"

text \<open>
  The result of \<open>getFileContent\<close>: a string, or the bytes of an \<open>ArrayBuffer\<close>.
\<close>

datatype fileData = TextData jsstring | BinaryData "nat list"

definition getFileContent ::
  "GitHubAPI \<Rightarrow> jsstring \<Rightarrow> jsstring \<Rightarrow> GitHubTreeItem \<Rightarrow> syncError + fileData" where
  "getFileContent api ownr rep item =
     (case api_getBlob api ownr rep (item_sha item) of
        Inl e \<Rightarrow> Inl e
      | Inr blob \<Rightarrow>
          if blob_encoding blob = Base64 then
            (if isMediaFile api (item_path item) then
               (case api_atob api (blob_content blob) of
                  None \<Rightarrow> Inl ApiFailure
                | Some binaryString \<Rightarrow> Inr (BinaryData binaryString))
             else
               (case api_atob api (blob_content blob) of
                  None \<Rightarrow> Inl ApiFailure
                | Some text \<Rightarrow> Inr (TextData text)))
          else Inr (TextData (blob_content blob)))"

definition buildFileUrl :: "jsstring \<Rightarrow> jsstring \<Rightarrow> jsstring \<Rightarrow> jsstring \<Rightarrow> jsstring" where
  "buildFileUrl ownr rep p brnch =
     js ''https://github.com/'' @ ownr @ js ''/'' @ rep @ js ''/blob/'' @ brnch
       @ js ''/'' @ p"

section \<open>The vault\<close>

text \<open>
  The vault of Obsidian is the local file store. It is a tree of files (a name and a
  content) and folders (a name and the children); the path of a node is the names from
  the root joined by \<open>/\<close>. Next to the tree the state keeps the journal of the calls
  that change the vault, in order. A binary file keeps its bytes as its content.
\<close>

datatype vnode = TFile jsstring jsstring | TFolder jsstring "vnode list"

datatype vaultOp =
    CreateFolder jsstring
  | Create jsstring jsstring
  | Modify jsstring jsstring
  | CreateBinary jsstring "nat list"
  | ModifyBinary jsstring "nat list"
  | Delete jsstring

record vault =
  root :: "vnode list"
  journal :: "vaultOp list"

fun nodeName :: "vnode \<Rightarrow> jsstring" where
  "nodeName (TFile n c) = n"
| "nodeName (TFolder n cs) = n"

fun findChild :: "jsstring \<Rightarrow> vnode list \<Rightarrow> vnode option" where
  "findChild n [] = None"
| "findChild n (c # cs) = (if nodeName c = n then Some c else findChild n cs)"

fun lookupPath :: "vnode list \<Rightarrow> jsstring list \<Rightarrow> vnode option" where
  "lookupPath cs [] = None"
| "lookupPath cs (n # ns) =
     (case findChild n cs of
        None \<Rightarrow> None
      | Some node \<Rightarrow>
          if ns = [] then Some node
          else (case node of
                  TFolder _ cs' \<Rightarrow> lookupPath cs' ns
                | TFile _ _ \<Rightarrow> None))"

definition getAbstractFileByPath :: "vault \<Rightarrow> jsstring \<Rightarrow> vnode option" where
  "getAbstractFileByPath v p = lookupPath (root v) (splitOn 47 p)"

text \<open>
  \<open>replaceChild n new cs\<close> puts \<open>new\<close> in the place of the child named \<open>n\<close>, and
  \<open>removeChild n cs\<close> takes that child out.
\<close>

fun replaceChild :: "jsstring \<Rightarrow> vnode \<Rightarrow> vnode list \<Rightarrow> vnode list" where
  "replaceChild n new [] = []"
| "replaceChild n new (c # cs) =
     (if nodeName c = n then new # cs else c # replaceChild n new cs)"

fun removeChild :: "jsstring \<Rightarrow> vnode list \<Rightarrow> vnode list" where
  "removeChild n [] = []"
| "removeChild n (c # cs) = (if nodeName c = n then cs else c # removeChild n cs)"

text \<open>
  \<open>alterPath f ns cs\<close> applies \<open>f\<close> to the children of the folder at the path \<open>ns\<close>
  below \<open>cs\<close> (the empty path is \<open>cs\<close> itself); it fails when the path is not a folder
  or \<open>f\<close> fails.
\<close>

fun alterPath ::
  "(vnode list \<Rightarrow> vnode list option) \<Rightarrow> jsstring list \<Rightarrow> vnode list \<Rightarrow> vnode list option" where
  "alterPath f [] cs = f cs"
| "alterPath f (n # ns) cs =
     (case findChild n cs of
        Some (TFolder _ cs') \<Rightarrow>
          (case alterPath f ns cs' of
             None \<Rightarrow> None
           | Some cs'' \<Rightarrow> Some (replaceChild n (TFolder n cs'') cs))
      | _ \<Rightarrow> None)"

definition vaultWrite ::
  "vault \<Rightarrow> jsstring \<Rightarrow> (jsstring \<Rightarrow> vnode list \<Rightarrow> vnode list option) \<Rightarrow> vaultOp
     \<Rightarrow> syncError + vault" where
  "vaultWrite v p f op =
     (let segs = splitOn 47 p
      in case alterPath (f (last segs)) (butlast segs) (root v) of
           None \<Rightarrow> Inl VaultFailure
         | Some r \<Rightarrow> Inr (v\<lparr>root := r, journal := journal v @ [op]\<rparr>))"

text \<open>
  The calls of the vault: \<open>createFolder\<close> and \<open>create\<close> fail when the parent is not a
  folder or the name is taken, \<open>modify\<close> fails when the path is not a file, and \<open>delete\<close>
  takes the node (with all below it) out of its parent.
\<close>

definition addNode :: "vnode \<Rightarrow> jsstring \<Rightarrow> vnode list \<Rightarrow> vnode list option" where
  "addNode new n cs = (if findChild n cs = None then Some (cs @ [new]) else None)"

definition setContent :: "jsstring \<Rightarrow> jsstring \<Rightarrow> vnode list \<Rightarrow> vnode list option" where
  "setContent c n cs =
     (case findChild n cs of
        Some (TFile _ _) \<Rightarrow> Some (replaceChild n (TFile n c) cs)
      | _ \<Rightarrow> None)"

definition dropNode :: "jsstring \<Rightarrow> vnode list \<Rightarrow> vnode list option" where
  "dropNode n cs = (if findChild n cs = None then None else Some (removeChild n cs))"

definition vaultCreateFolder :: "vault \<Rightarrow> jsstring \<Rightarrow> syncError + vault" where
  "vaultCreateFolder v p =
     vaultWrite v p (\<lambda>n. addNode (TFolder n []) n) (CreateFolder p)"

definition vaultCreate :: "vault \<Rightarrow> jsstring \<Rightarrow> jsstring \<Rightarrow> syncError + vault" where
  "vaultCreate v p c = vaultWrite v p (\<lambda>n. addNode (TFile n c) n) (Create p c)"

definition vaultModify :: "vault \<Rightarrow> jsstring \<Rightarrow> jsstring \<Rightarrow> syncError + vault" where
  "vaultModify v p c = vaultWrite v p (setContent c) (Modify p c)"

definition vaultCreateBinary :: "vault \<Rightarrow> jsstring \<Rightarrow> nat list \<Rightarrow> syncError + vault" where
  "vaultCreateBinary v p c = vaultWrite v p (\<lambda>n. addNode (TFile n c) n) (CreateBinary p c)"

definition vaultModifyBinary :: "vault \<Rightarrow> jsstring \<Rightarrow> nat list \<Rightarrow> syncError + vault" where
  "vaultModifyBinary v p c = vaultWrite v p (setContent c) (ModifyBinary p c)"

definition vaultDelete :: "vault \<Rightarrow> jsstring \<Rightarrow> syncError + vault" where
  "vaultDelete v p = vaultWrite v p dropNode (Delete p)"

section \<open>The plugin (main.ts)\<close>

record AutoDefaults =
  includePrivate :: bool
  includeForks :: bool
  includeArchived :: bool
  repoGlob :: jsstring

text \<open>The fields of the settings that the functions below read or write.\<close>

record GitHubReadmeSyncSettings =
  st_baseFolder :: jsstring
  st_addFrontmatter :: bool
  st_addReadonlyBanner :: bool
  st_addBacklinks :: bool
  st_pruneExtraneousFiles :: bool
  st_syncMediaFiles :: bool
  st_lastSyncedRepos :: "jsstring list"

datatype repoSource = Auto | Manual

record RepoConfig =
  rc_owner :: jsstring
  rc_repo :: jsstring
  rc_branch :: jsstring
  rc_source :: repoSource

text \<open>
  \<open>isMatch\<close> is \<open>micromatch.isMatch\<close>, a library function and a parameter here. The
  guard \<open>filters.repoGlob && filters.repoGlob !== '*'\<close> is false for the empty string.
\<close>

definition filterRepositories ::
  "(jsstring \<Rightarrow> jsstring \<Rightarrow> bool) \<Rightarrow> GitHubRepo list \<Rightarrow> AutoDefaults \<Rightarrow> GitHubRepo list" where
  "filterRepositories isMatch repos filters =
     filter
       (\<lambda>r.
          if \<not> includePrivate filters \<and> repo_private r then False
          else if \<not> includeArchived filters \<and> repo_archived r then False
          else if \<not> includeForks filters \<and> repo_fork r then False
          else if (repoGlob filters \<noteq> [] \<and> repoGlob filters \<noteq> js ''*'')
                  \<and> \<not> isMatch (repo_name r) (repoGlob filters) then False
          else True)
       repos"

definition getLocalFilePath :: "jsstring \<Rightarrow> jsstring \<Rightarrow> jsstring" where
  "getLocalFilePath baseFolderPath githubPath = baseFolderPath @ js ''/'' @ githubPath"

text \<open>
  The path of a repository's folder, \<open>`${this.settings.baseFolder}/${owner}/${repo}`\<close>
  in \<open>syncRepository\<close> and \<open>cleanupRemovedRepositories\<close>.
\<close>

definition repoFolderPath :: "jsstring \<Rightarrow> jsstring \<Rightarrow> jsstring \<Rightarrow> jsstring" where
  "repoFolderPath baseFolder ownr rep = baseFolder @ js ''/'' @ ownr @ js ''/'' @ rep"

text \<open>
  \<open>pathParts.pop()\<close> removes the last element of the array (\<open>butlast\<close>), and does
  nothing to an empty array.
\<close>

definition calculateBacklinkTarget ::
  "GitHubReadmeSyncSettings \<Rightarrow> jsstring \<Rightarrow> jsstring \<Rightarrow> jsstring" where
  "calculateBacklinkTarget st baseFolderPath filePath =
     (let pathParts = butlast (splitOn 47 filePath)
      in if length pathParts = 0 then st_baseFolder st
         else
           (let pathParts' = butlast pathParts
            in if length pathParts' = 0 then baseFolderPath @ js ''/README''
               else baseFolderPath @ js ''/'' @ joinWith (js ''/'') pathParts'
                      @ js ''/README''))"

text \<open>
  \<open>ensureFolderExists\<close>: the loop over the pieces of the path, with \<open>currentPath\<close> as
  its state. A failed \<open>createFolder\<close> ends it with the error and the vault as it is then.
\<close>

fun ensureFolders ::
  "vault \<Rightarrow> jsstring \<Rightarrow> jsstring list \<Rightarrow> syncError option \<times> vault" where
  "ensureFolders v currentPath [] = (None, v)"
| "ensureFolders v currentPath (folder # folders) =
     (if folder = [] then ensureFolders v currentPath folders
      else
        (let currentPath' =
               (if currentPath \<noteq> [] then currentPath @ js ''/'' @ folder else folder)
         in case getAbstractFileByPath v currentPath' of
              Some existingFolder \<Rightarrow> ensureFolders v currentPath' folders
            | None \<Rightarrow>
                (case vaultCreateFolder v currentPath' of
                   Inl e \<Rightarrow> (Some e, v)
                 | Inr v' \<Rightarrow> ensureFolders v' currentPath' folders)))"

definition ensureFolderExists :: "vault \<Rightarrow> jsstring \<Rightarrow> syncError option \<times> vault" where
  "ensureFolderExists v p = ensureFolders v [] (splitOn 47 p)"

text \<open>
  \<open>syncFile\<close>. \<open>now\<close> is the clock read by the header step. The result is the error, if
  the call throws, and the vault as the call leaves it.
\<close>

definition syncFile ::
  "GitHubReadmeSyncSettings \<Rightarrow> GitHubAPI \<Rightarrow> jsstring \<Rightarrow> vault \<Rightarrow> jsstring \<Rightarrow> jsstring
     \<Rightarrow> jsstring \<Rightarrow> GitHubTreeItem \<Rightarrow> jsstring \<Rightarrow> syncError option \<times> vault" where
  "syncFile st api now v ownr rep brnch fileItem baseFolderPath =
     (case getFileContent api ownr rep fileItem of
        Inl e \<Rightarrow> (Some e, v)
      | Inr content \<Rightarrow>
          (let localFilePath = getLocalFilePath baseFolderPath (item_path fileItem);
               parentPath =
                 substring localFilePath 0 (lastIndexOf localFilePath (js ''/''))
           in case ensureFolderExists v parentPath of
                (Some e, v1) \<Rightarrow> (Some e, v1)
              | (None, v1) \<Rightarrow>
                  (case content of
                     BinaryData bytes \<Rightarrow>
                       (case getAbstractFileByPath v1 localFilePath of
                          Some existingFile \<Rightarrow>
                            (case vaultModifyBinary v1 localFilePath bytes of
                               Inl e \<Rightarrow> (Some e, v1)
                             | Inr v2 \<Rightarrow> (None, v2))
                        | None \<Rightarrow>
                            (case vaultCreateBinary v1 localFilePath bytes of
                               Inl e \<Rightarrow> (Some e, v1)
                             | Inr v2 \<Rightarrow> (None, v2)))
                   | TextData text \<Rightarrow>
                       (let metadata =
                              \<lparr>meta_owner = ownr, meta_repo = rep, meta_branch = brnch,
                               meta_path = item_path fileItem,
                               meta_githubUrl =
                                 buildFileUrl ownr rep (item_path fileItem) brnch\<rparr>;
                            backlinkTarget =
                              (if st_addBacklinks st
                               then Some (calculateBacklinkTarget st baseFolderPath
                                            (item_path fileItem))
                               else None);
                            processedContent =
                              processFileContent now text metadata
                                \<lparr>optAddFrontmatter = st_addFrontmatter st,
                                 optAddReadonlyBanner = st_addReadonlyBanner st,
                                 optAddBacklinks = st_addBacklinks st,
                                 optBacklinkTarget = backlinkTarget\<rparr>;
                            existingFile = getAbstractFileByPath v1 localFilePath;
                            shouldUpdate =
                              (case existingFile of
                                 Some (TFile _ existingContent) \<Rightarrow>
                                   processedContent \<noteq> existingContent
                               | _ \<Rightarrow> True)
                        in if shouldUpdate then
                             (case existingFile of
                                Some _ \<Rightarrow>
                                  (case vaultModify v1 localFilePath processedContent of
                                     Inl e \<Rightarrow> (Some e, v1)
                                   | Inr v2 \<Rightarrow> (None, v2))
                              | None \<Rightarrow>
                                  (case vaultCreate v1 localFilePath processedContent of
                                     Inl e \<Rightarrow> (Some e, v1)
                                   | Inr v2 \<Rightarrow> (None, v2)))
                           else (None, v1)))))"

text \<open>
  The test of \<open>pruneFolder\<close> on a file that is not in the synced set: a Markdown file
  goes when its header gives metadata, a media file (by \<open>isMediaFile\<close> of the client)
  when its path has three pieces or more and starts at the base folder.
\<close>

definition shouldPrune ::
  "GitHubReadmeSyncSettings \<Rightarrow> GitHubAPI \<Rightarrow> jsstring set \<Rightarrow> jsstring \<Rightarrow> jsstring \<Rightarrow> bool" where
  "shouldPrune st api syncedFiles childPath content =
     (if childPath \<notin> syncedFiles then
        (let isMarkdown = (endsWith childPath (js ''.md'') \<or> endsWith childPath (js ''.mdx''));
             isMedia = isMediaFile api childPath
         in if isMarkdown then extractGitHubMetadata content \<noteq> None
            else if isMedia then
              (let pathParts = splitOn 47 childPath
               in length pathParts \<ge> 3 \<and> hd pathParts = st_baseFolder st)
            else False)
      else False)"

definition childPath :: "jsstring \<Rightarrow> jsstring \<Rightarrow> jsstring" where
  "childPath folderPath n = folderPath @ js ''/'' @ n"

text \<open>
  \<open>pruneFolder\<close> on the folder with the path \<open>folderPath\<close> and the given children. The
  result is the children that are left and the paths deleted, in the order of the calls
  of \<open>vault.delete\<close>: the files of \<open>filesToDelete\<close> first, then, for each subfolder, the
  deletions below it and the subfolder itself when it is left empty. Every
  \<open>vault.delete\<close> is taken to succeed.
\<close>

fun pruneFolder ::
  "GitHubReadmeSyncSettings \<Rightarrow> GitHubAPI \<Rightarrow> jsstring set \<Rightarrow> jsstring \<Rightarrow> vnode list
     \<Rightarrow> vnode list \<times> jsstring list"
and pruneChildren ::
  "GitHubReadmeSyncSettings \<Rightarrow> GitHubAPI \<Rightarrow> jsstring set \<Rightarrow> jsstring \<Rightarrow> vnode list
     \<Rightarrow> vnode list \<times> jsstring list"
and filesToDelete ::
  "GitHubReadmeSyncSettings \<Rightarrow> GitHubAPI \<Rightarrow> jsstring set \<Rightarrow> jsstring \<Rightarrow> vnode list \<Rightarrow> jsstring list" where
  "pruneFolder st api syncedFiles folderPath children =
     (case pruneChildren st api syncedFiles folderPath children of
        (left, deleted) \<Rightarrow>
          (left, filesToDelete st api syncedFiles folderPath children @ deleted))"
| "filesToDelete st api syncedFiles folderPath [] = []"
| "filesToDelete st api syncedFiles folderPath (TFile n content # children) =
     (if shouldPrune st api syncedFiles (childPath folderPath n) content
      then childPath folderPath n # filesToDelete st api syncedFiles folderPath children
      else filesToDelete st api syncedFiles folderPath children)"
| "filesToDelete st api syncedFiles folderPath (TFolder n cs # children) =
     filesToDelete st api syncedFiles folderPath children"
| "pruneChildren st api syncedFiles folderPath [] = ([], [])"
| "pruneChildren st api syncedFiles folderPath (TFile n content # children) =
     (case pruneChildren st api syncedFiles folderPath children of
        (left, deleted) \<Rightarrow>
          if shouldPrune st api syncedFiles (childPath folderPath n) content
          then (left, deleted)
          else (TFile n content # left, deleted))"
| "pruneChildren st api syncedFiles folderPath (TFolder n cs # children) =
     (case pruneFolder st api syncedFiles (childPath folderPath n) cs of
        (cs', deletedBelow) \<Rightarrow>
          (case pruneChildren st api syncedFiles folderPath children of
             (left, deleted) \<Rightarrow>
               if length cs' = 0
               then (left, deletedBelow @ [childPath folderPath n] @ deleted)
               else (TFolder n cs' # left, deletedBelow @ deleted)))"

definition pruneExtraneousFiles ::
  "GitHubReadmeSyncSettings \<Rightarrow> GitHubAPI \<Rightarrow> vault \<Rightarrow> jsstring \<Rightarrow> jsstring set \<Rightarrow> vault" where
  "pruneExtraneousFiles st api v baseFolderPath syncedFiles =
     (case getAbstractFileByPath v baseFolderPath of
        Some (TFolder _ children) \<Rightarrow>
          (case pruneFolder st api syncedFiles baseFolderPath children of
             (left, deleted) \<Rightarrow>
               (case alterPath (\<lambda>cs. Some left) (splitOn 47 baseFolderPath) (root v) of
                  Some r \<Rightarrow> v\<lparr>root := r, journal := journal v @ map Delete deleted\<rparr>
                | None \<Rightarrow> v))
      | _ \<Rightarrow> v)"

text \<open>
  \<open>syncRepository\<close>. \<open>clock p\<close> is the clock at the time the file with the local path
  \<open>p\<close> is processed. The loop over the files keeps the vault and the synced set; a file
  whose \<open>syncFile\<close> throws is not added to the set.
\<close>

definition syncStep ::
  "GitHubReadmeSyncSettings \<Rightarrow> GitHubAPI \<Rightarrow> (jsstring \<Rightarrow> jsstring) \<Rightarrow> jsstring \<Rightarrow> jsstring
     \<Rightarrow> jsstring \<Rightarrow> jsstring \<Rightarrow> vault \<times> jsstring set \<Rightarrow> GitHubTreeItem
     \<Rightarrow> vault \<times> jsstring set" where
  "syncStep st api clock ownr rep brnch baseFolderPath state fileItem =
     (case state of (v, syncedFiles) \<Rightarrow>
        (let localFilePath = getLocalFilePath baseFolderPath (item_path fileItem)
         in case syncFile st api (clock localFilePath) v ownr rep brnch fileItem
                   baseFolderPath of
              (None, v') \<Rightarrow> (v', insert localFilePath syncedFiles)
            | (Some e, v') \<Rightarrow> (v', syncedFiles)))"

definition syncRepository ::
  "GitHubReadmeSyncSettings \<Rightarrow> GitHubAPI \<Rightarrow> (jsstring \<Rightarrow> jsstring) \<Rightarrow> vault \<Rightarrow> RepoConfig
     \<Rightarrow> syncError option \<times> vault" where
  "syncRepository st api clock v repoConfig =
     (let ownr = rc_owner repoConfig; rep = rc_repo repoConfig;
          brnch = rc_branch repoConfig
      in case getAllSyncableFiles api ownr rep brnch (st_syncMediaFiles st) of
           Inl e \<Rightarrow> (Some e, v)
         | Inr syncableFiles \<Rightarrow>
             if length syncableFiles = 0 then (None, v)
             else
               (let baseFolderPath = repoFolderPath (st_baseFolder st) ownr rep
                in case ensureFolderExists v baseFolderPath of
                     (Some e, v1) \<Rightarrow> (Some e, v1)
                   | (None, v1) \<Rightarrow>
                       (case foldl (syncStep st api clock ownr rep brnch baseFolderPath)
                               (v1, {}) syncableFiles of
                          (v2, syncedFiles) \<Rightarrow>
                            if st_pruneExtraneousFiles st
                            then (None, pruneExtraneousFiles st api v2 baseFolderPath
                                          syncedFiles)
                            else (None, v2))))"

text \<open>
  \<open>scanExistingRepositories\<close>: the folders two levels below the base folder.
\<close>

fun repoFoldersOf :: "jsstring \<Rightarrow> vnode list \<Rightarrow> jsstring list" where
  "repoFoldersOf ownerName [] = []"
| "repoFoldersOf ownerName (TFolder rep cs # repoChildren) =
     (ownerName @ js ''/'' @ rep) # repoFoldersOf ownerName repoChildren"
| "repoFoldersOf ownerName (TFile n c # repoChildren) =
     repoFoldersOf ownerName repoChildren"

fun ownerFoldersOf :: "vnode list \<Rightarrow> jsstring list" where
  "ownerFoldersOf [] = []"
| "ownerFoldersOf (TFolder ownerName repoChildren # ownerChildren) =
     repoFoldersOf ownerName repoChildren @ ownerFoldersOf ownerChildren"
| "ownerFoldersOf (TFile n c # ownerChildren) = ownerFoldersOf ownerChildren"

definition scanExistingRepositories ::
  "GitHubReadmeSyncSettings \<Rightarrow> vault \<Rightarrow> jsstring list" where
  "scanExistingRepositories st v =
     (case getAbstractFileByPath v (st_baseFolder st) of
        Some (TFolder _ ownerChildren) \<Rightarrow> ownerFoldersOf ownerChildren
      | _ \<Rightarrow> [])"

text \<open>
  \<open>recursiveDeleteFolder\<close>: the paths it deletes, in order (the files and the
  subfolders of the folder, then the folder). Every \<open>vault.delete\<close> is taken to
  succeed, so the folder is gone from the vault afterwards.
\<close>

fun recursiveDeleteFolder :: "jsstring \<Rightarrow> vnode list \<Rightarrow> jsstring list"
and recursiveDeleteChildren :: "jsstring \<Rightarrow> vnode list \<Rightarrow> jsstring list" where
  "recursiveDeleteFolder folderPath children =
     recursiveDeleteChildren folderPath children @ [folderPath]"
| "recursiveDeleteChildren folderPath [] = []"
| "recursiveDeleteChildren folderPath (TFile n c # children) =
     childPath folderPath n # recursiveDeleteChildren folderPath children"
| "recursiveDeleteChildren folderPath (TFolder n cs # children) =
     recursiveDeleteFolder (childPath folderPath n) cs
       @ recursiveDeleteChildren folderPath children"

definition deleteTree :: "vault \<Rightarrow> jsstring \<Rightarrow> jsstring list \<Rightarrow> vault" where
  "deleteTree v p deleted =
     (case alterPath (dropNode (last (splitOn 47 p))) (butlast (splitOn 47 p)) (root v) of
        Some r \<Rightarrow> v\<lparr>root := r, journal := journal v @ map Delete deleted\<rparr>
      | None \<Rightarrow> v)"

text \<open>
  One round of the loop of \<open>cleanupRemovedRepositories\<close> over the removed identities.
  \<open>const [owner, repo] = repoId.split('/')\<close> takes the first two pieces; a missing
  piece is undefined and an empty one is falsy.
\<close>

definition cleanupRepo :: "GitHubReadmeSyncSettings \<Rightarrow> vault \<Rightarrow> jsstring \<Rightarrow> vault" where
  "cleanupRepo st v repoId =
     (case splitOn 47 repoId of
        ownr # rep # _ \<Rightarrow>
          if ownr = [] \<or> rep = [] then v
          else
            (let repoFolder = repoFolderPath (st_baseFolder st) ownr rep;
                 v1 = (case getAbstractFileByPath v repoFolder of
                         Some (TFolder _ children) \<Rightarrow>
                           deleteTree v repoFolder (recursiveDeleteFolder repoFolder children)
                       | _ \<Rightarrow> v);
                 ownerFolderPath = st_baseFolder st @ js ''/'' @ ownr
             in case getAbstractFileByPath v1 ownerFolderPath of
                  Some (TFolder _ children) \<Rightarrow>
                    if length children = 0 then deleteTree v1 ownerFolderPath [ownerFolderPath]
                    else v1
                | _ \<Rightarrow> v1)
      | _ \<Rightarrow> v)"

text \<open>
  \<open>cleanupRemovedRepositories\<close>: the vault it leaves and the removed set it computes.
\<close>

definition removedRepoIds ::
  "GitHubReadmeSyncSettings \<Rightarrow> vault \<Rightarrow> jsstring list \<Rightarrow> jsstring list" where
  "removedRepoIds st v currentRepoIds =
     (let previousRepoIds = st_lastSyncedRepos st;
          removed = filter (\<lambda>repoId. repoId \<notin> set currentRepoIds) previousRepoIds;
          existingRepoIds = scanExistingRepositories st v;
          untrackedExistingRepos =
            filter (\<lambda>repoId. repoId \<notin> set currentRepoIds) existingRepoIds
      in if length untrackedExistingRepos > 0 then removed @ untrackedExistingRepos
         else removed)"

definition cleanupRemovedRepositories ::
  "GitHubReadmeSyncSettings \<Rightarrow> vault \<Rightarrow> jsstring list \<Rightarrow> vault" where
  "cleanupRemovedRepositories st v currentRepoIds =
     (let removed = removedRepoIds st v currentRepoIds
      in if length removed = 0 then v else foldl (cleanupRepo st) v removed)"

text \<open>
  \<open>syncAll\<close> from the point where the repositories are resolved: \<open>repoConfigs\<close> is the
  result of \<open>getAllRepoConfigs\<close>. A repository whose sync throws is counted and the loop
  goes on; the identities are stored in the settings after the loop.
\<close>

definition currentRepoIdsOf :: "RepoConfig list \<Rightarrow> jsstring list" where
  "currentRepoIdsOf repoConfigs =
     map (\<lambda>config. rc_owner config @ js ''/'' @ rc_repo config) repoConfigs"

definition syncAll ::
  "GitHubReadmeSyncSettings \<Rightarrow> GitHubAPI \<Rightarrow> (jsstring \<Rightarrow> jsstring) \<Rightarrow> vault
     \<Rightarrow> RepoConfig list \<Rightarrow> GitHubReadmeSyncSettings \<times> vault" where
  "syncAll st api clock v repoConfigs =
     (if length repoConfigs = 0 then (st, v)
      else
        (let currentRepoIds = currentRepoIdsOf repoConfigs;
             v1 = cleanupRemovedRepositories st v currentRepoIds;
             v2 = foldl (\<lambda>v' repoConfig. snd (syncRepository st api clock v' repoConfig))
                    v1 repoConfigs
         in (st\<lparr>st_lastSyncedRepos := currentRepoIds\<rparr>, v2)))"

section \<open>Notions used to state the properties\<close>

text \<open>The entries of page \<open>i\<close> of a listing (none when the request fails).\<close>

definition pageOf :: "(nat \<Rightarrow> syncError + GitHubRepo list) \<Rightarrow> nat \<Rightarrow> GitHubRepo list" where
  "pageOf request i = (case request i of Inr p \<Rightarrow> p | Inl e \<Rightarrow> [])"

text \<open>Sample values for the concrete instances of the theorems.\<close>

definition sampleSettings :: GitHubReadmeSyncSettings where
  "sampleSettings =
     \<lparr>st_baseFolder = js ''Projects'', st_addFrontmatter = True,
      st_addReadonlyBanner = True, st_addBacklinks = True,
      st_pruneExtraneousFiles = True, st_syncMediaFiles = False,
      st_lastSyncedRepos = []\<rparr>"

definition sampleRepo :: "string \<Rightarrow> bool \<Rightarrow> bool \<Rightarrow> GitHubRepo" where
  "sampleRepo n priv frk =
     \<lparr>repo_name = js n, repo_full_name = js ''octo/'' @ js n, repo_owner_login = js ''octo'',
      repo_default_branch = js ''main'', repo_private = priv, repo_fork = frk,
      repo_archived = False, repo_clone_url = []\<rparr>"

text \<open>
  The delimiters of the codec, and the places it computes: \<open>headerEnd c\<close> is the position
  after the closing delimiter of a leading header (0 when \<open>c\<close> has no closed header), and
  \<open>backlinkPos r\<close> is the position after a leading banner of \<open>r\<close> (0 when \<open>r\<close> does not
  start with the banner, or the banner has no blank line after it).
\<close>

definition hdr :: jsstring where "hdr = js ''---\<newline>''"

definition nl3 :: jsstring where "nl3 = js ''\<newline>---\<newline>''"

definition nl2 :: jsstring where "nl2 = js ''\<newline>\<newline>''"

definition backlinkLine :: "jsstring \<Rightarrow> jsstring" where
  "backlinkLine t = 8592 # js '' [['' @ t @ js '']]\<newline>\<newline>''"

definition headerEnd :: "jsstring \<Rightarrow> nat" where
  "headerEnd c =
     (if startsWith c hdr then (case search nl3 c of Some i \<Rightarrow> i + 5 | None \<Rightarrow> 0) else 0)"

definition backlinkPos :: "jsstring \<Rightarrow> nat" where
  "backlinkPos r =
     (if startsWith r bannerTitle then (case search nl2 r of Some j \<Rightarrow> j + 2 | None \<Rightarrow> 0)
      else 0)"

text \<open>
  The banner step and the backlink step on the text after the header, and the headers
  that are closed: a text that starts with the opening delimiter and ends with its first
  closing delimiter.
\<close>

definition bannerStep :: "FileMetadata \<Rightarrow> jsstring \<Rightarrow> jsstring" where
  "bannerStep m x = (if includesStr x bannerTitle then x else bannerBlock m @ x)"

definition backlinkStep :: "jsstring \<Rightarrow> jsstring \<Rightarrow> jsstring" where
  "backlinkStep t x =
     (let k = backlinkPos x
      in if backlinkPattern (drop k x) \<noteq> None then x
         else take k x @ backlinkLine t @ drop k x)"

definition closedHeader :: "jsstring \<Rightarrow> bool" where
  "closedHeader h = (startsWith h hdr \<and> search nl3 h = Some (length h - 5) \<and> 5 \<le> length h)"

text \<open>
  The steps of \<open>processFileContent\<close> after the header step, on the text after the header.
\<close>

definition afterHeader :: "FileMetadata \<Rightarrow> ProcessOptions \<Rightarrow> jsstring \<Rightarrow> jsstring" where
  "afterHeader m opts x =
     (let y = (if optAddReadonlyBanner opts then bannerStep m x else x)
      in case optBacklinkTarget opts of
           None \<Rightarrow> y
         | Some t \<Rightarrow> if optAddBacklinks opts \<and> t \<noteq> [] then backlinkStep t y else y)"

definition sampleMetadata :: FileMetadata where
  "sampleMetadata =
     \<lparr>meta_owner = js ''octo'', meta_repo = js ''site'', meta_branch = js ''main'',
      meta_path = js ''docs/guide.md'',
      meta_githubUrl = js ''https://github.com/octo/site/blob/main/docs/guide.md''\<rparr>"

definition sampleOptions :: ProcessOptions where
  "sampleOptions =
     \<lparr>optAddFrontmatter = True, optAddReadonlyBanner = True, optAddBacklinks = True,
      optBacklinkTarget = Some (js ''Projects/octo/site/README'')\<rparr>"

text \<open>
  The header block without its final blank line, the lines between its delimiters, and
  the metadata whose fields (and clock value) are single lines.
\<close>

definition headerOnly :: "jsstring \<Rightarrow> FileMetadata \<Rightarrow> jsstring" where
  "headerOnly now m =
     js ''---\<newline>github_repo: '' @ meta_owner m @ js ''/'' @ meta_repo m @
     js ''\<newline>github_path: '' @ meta_path m @
     js ''\<newline>github_url: '' @ meta_githubUrl m @
     js ''\<newline>synced_at: '' @ now @
     js ''\<newline>readonly: true\<newline>---\<newline>''"

definition headerLines :: "jsstring \<Rightarrow> FileMetadata \<Rightarrow> jsstring list" where
  "headerLines now m =
     [js ''github_repo: '' @ meta_owner m @ js ''/'' @ meta_repo m,
      js ''github_path: '' @ meta_path m,
      js ''github_url: '' @ meta_githubUrl m,
      js ''synced_at: '' @ now,
      js ''readonly: true'']"

definition singleLine :: "jsstring \<Rightarrow> bool" where
  "singleLine s = (10 \<notin> set s)"

definition singleLineMetadata :: "jsstring \<Rightarrow> FileMetadata \<Rightarrow> bool" where
  "singleLineMetadata now m =
     (singleLine (meta_owner m) \<and> singleLine (meta_repo m) \<and> singleLine (meta_path m)
      \<and> singleLine (meta_githubUrl m) \<and> singleLine now)"

text \<open>
  The parse of the text between the delimiters of a header, and the keys of its lines
  (the text before the first colon of a line, trimmed).
\<close>

definition parseHeader :: "jsstring \<Rightarrow> FileMetadata option" where
  "parseHeader frontmatter =
     (case foldl metadataLine ([], [], []) (splitOn 10 frontmatter) of
        (githubRepo, githubPath, githubUrl) \<Rightarrow>
          if githubRepo = [] \<or> githubPath = [] \<or> githubUrl = [] then None
          else
            (case splitOn 47 githubRepo of
               o1 # r1 # _ \<Rightarrow>
                 if o1 = [] \<or> r1 = [] then None
                 else Some \<lparr>meta_owner = o1, meta_repo = r1,
                            meta_branch = branchOfUrl (splitOn 47 githubUrl),
                            meta_path = githubPath, meta_githubUrl = githubUrl\<rparr>
             | _ \<Rightarrow> None))"

definition lineKey :: "jsstring \<Rightarrow> jsstring" where
  "lineKey line = trim (hd (splitOn 58 line))"

definition headerKeys :: "jsstring \<Rightarrow> jsstring list" where
  "headerKeys c =
     (if startsWith c hdr then
        (case search nl3 c of
           None \<Rightarrow> []
         | Some i \<Rightarrow> map lineKey (splitOn 10 (substring c 4 (int i))))
      else [])"

text \<open>
  Metadata as the reconciler builds it: single lines, an owner and a repository name
  that are not empty and have neither white space nor a slash, and a path and a URL
  that are not blank.
\<close>

definition wellFormedMetadata :: "jsstring \<Rightarrow> FileMetadata \<Rightarrow> bool" where
  "wellFormedMetadata now m =
     (singleLineMetadata now m
      \<and> meta_owner m \<noteq> [] \<and> meta_repo m \<noteq> []
      \<and> (\<forall>c \<in> set (meta_owner m @ meta_repo m). \<not> isWhiteSpace c \<and> c \<noteq> 47)
      \<and> (\<exists>c \<in> set (meta_path m). \<not> isWhiteSpace c)
      \<and> (\<exists>c \<in> set (meta_githubUrl m). \<not> isWhiteSpace c))"

text \<open>The files below a folder, each with its path and its content.\<close>

fun filesUnder :: "jsstring \<Rightarrow> vnode list \<Rightarrow> (jsstring \<times> jsstring) list" where
  "filesUnder folderPath [] = []"
| "filesUnder folderPath (TFile n c # children) =
     (childPath folderPath n, c) # filesUnder folderPath children"
| "filesUnder folderPath (TFolder n cs # children) =
     filesUnder (childPath folderPath n) cs @ filesUnder folderPath children"

text \<open>
  A remote file that brings a header with the three provenance keys of its own, as a file
  copied from a synced vault into a repository does.
\<close>

definition copiedContent :: jsstring where
  "copiedContent =
     js ''---\<newline>github_repo: octo/notes\<newline>github_path: a.md\<newline>github_url: https://github.com/octo/notes/blob/main/a.md\<newline>---\<newline>hello''"

text \<open>
  The folder of a repository with a note of the user, a file the pipeline wrote, and a
  subfolder with another file the pipeline wrote.
\<close>

definition sampleChildren :: "vnode list" where
  "sampleChildren =
     [TFile (js ''notes.md'') (js ''my own notes''),
      TFile (js ''old.md'')
        (frontmatterBlock (js ''2026-01-01T00:00:00.000Z'') sampleMetadata @ js ''old text''),
      TFolder (js ''docs'')
        [TFile (js ''gone.md'')
           (frontmatterBlock (js ''2026-01-01T00:00:00.000Z'') sampleMetadata @ js ''gone'')]]"

text \<open>
  The processed content that \<open>syncFile\<close> computes for the text of a remote file.
\<close>

definition processedFor ::
  "GitHubReadmeSyncSettings \<Rightarrow> jsstring \<Rightarrow> jsstring \<Rightarrow> jsstring \<Rightarrow> jsstring
     \<Rightarrow> GitHubTreeItem \<Rightarrow> jsstring \<Rightarrow> jsstring \<Rightarrow> jsstring" where
  "processedFor st now ownr rep brnch fileItem baseFolderPath text =
     processFileContent now text
       \<lparr>meta_owner = ownr, meta_repo = rep, meta_branch = brnch,
        meta_path = item_path fileItem,
        meta_githubUrl = buildFileUrl ownr rep (item_path fileItem) brnch\<rparr>
       \<lparr>optAddFrontmatter = st_addFrontmatter st,
        optAddReadonlyBanner = st_addReadonlyBanner st,
        optAddBacklinks = st_addBacklinks st,
        optBacklinkTarget =
          (if st_addBacklinks st
           then Some (calculateBacklinkTarget st baseFolderPath (item_path fileItem))
           else None)\<rparr>"

text \<open>
  A remote repository with one Markdown file, and a vault that holds its synced copy.
\<close>

definition sampleItem :: GitHubTreeItem where
  "sampleItem =
     \<lparr>item_path = js ''README.md'', item_mode = js ''100644'', item_type = Blob,
      item_sha = js ''abc'', item_size = None, item_url = []\<rparr>"

text \<open>
  The lower-casing of the sample platform: it maps the letters A to Z and leaves every
  other code unit as it is, which is what \<open>String.prototype.toLowerCase\<close> does on a
  string of ASCII code units.
\<close>

definition lowerAscii :: "jsstring \<Rightarrow> jsstring" where
  "lowerAscii s = map (\<lambda>c. if 65 \<le> c \<and> c \<le> 90 then c + 32 else c) s"

definition sampleApi :: GitHubAPI where
  "sampleApi =
     \<lparr>api_getBranchSHA = (\<lambda>ownr rep brnch. Inr (js ''head'')),
      api_getTree = (\<lambda>ownr rep sha. Inr [sampleItem]),
      api_getBlob = (\<lambda>ownr rep sha.
         Inr \<lparr>blob_sha = sha, blob_content = js ''# Site'', blob_encoding = Utf8,
              blob_size = 6\<rparr>),
      api_atob = (\<lambda>s. None), api_toLowerCase = lowerAscii\<rparr>"

definition sampleVault :: "jsstring \<Rightarrow> vault" where
  "sampleVault content =
     \<lparr>root = [TFolder (js ''Projects'')
                [TFolder (js ''octo'') [TFolder (js ''site'') [TFile (js ''README.md'') content]]]],
      journal = []\<rparr>"

text \<open>
  The same remote repository when every request of a blob fails.
\<close>

definition failingApi :: GitHubAPI where
  "failingApi = sampleApi\<lparr>api_getBlob := (\<lambda>ownr rep sha. Inl ApiFailure)\<rparr>"

text \<open>
  What a call of \<open>syncFile\<close> leaves as it is: a file at another path, and the journal
  written so far.
\<close>

definition keeps :: "jsstring \<Rightarrow> jsstring \<Rightarrow> jsstring \<Rightarrow> vault \<Rightarrow> vault \<Rightarrow> bool" where
  "keeps p k d v v' =
     ((getAbstractFileByPath v p = Some (TFile k d)
         \<longrightarrow> getAbstractFileByPath v' p = Some (TFile k d))
      \<and> (\<exists>ops. journal v' = journal v @ ops))"

text \<open>
  The repository identities that the scan reads in a tree, for the pieces of the path of
  the base folder.
\<close>

definition repoIdsAt :: "jsstring list \<Rightarrow> vnode list \<Rightarrow> jsstring list" where
  "repoIdsAt bs cs =
     (case lookupPath cs bs of
        Some (TFolder _ ownerChildren) \<Rightarrow> ownerFoldersOf ownerChildren
      | _ \<Rightarrow> [])"

text \<open>
  A well-formed tree: the names are not empty and have no \<open>/\<close>, and the children of
  a folder have distinct names.
\<close>

fun wfNode :: "vnode \<Rightarrow> bool"
and wfNodes :: "vnode list \<Rightarrow> bool" where
  "wfNode (TFile n c) = (n \<noteq> [] \<and> 47 \<notin> set n)"
| "wfNode (TFolder n cs) = (n \<noteq> [] \<and> 47 \<notin> set n \<and> wfNodes cs)"
| "wfNodes [] = True"
| "wfNodes (c # cs) = (wfNode c \<and> nodeName c \<notin> nodeName ` set cs \<and> wfNodes cs)"

text \<open>
  The identities read in \<open>v'\<close> are those read in \<open>v\<close> and at most \<open>repoId\<close>.
\<close>

definition grows :: "jsstring list \<Rightarrow> jsstring \<Rightarrow> vault \<Rightarrow> vault \<Rightarrow> bool" where
  "grows bs repoId v v' =
     (set (repoIdsAt bs (root v')) \<subseteq> insert repoId (set (repoIdsAt bs (root v))))"

text \<open>
  A configured repository, and a vault with its folder and the folder of a repository
  that is not configured.
\<close>

definition sampleConfig :: RepoConfig where
  "sampleConfig =
     \<lparr>rc_owner = js ''octo'', rc_repo = js ''site'', rc_branch = js ''main'',
      rc_source = Manual\<rparr>"

definition twoRepoVault :: vault where
  "twoRepoVault =
     \<lparr>root = [TFolder (js ''Projects'')
                [TFolder (js ''octo'')
                   [TFolder (js ''site'') [TFile (js ''README.md'') copiedContent],
                    TFolder (js ''old'') [TFile (js ''README.md'') copiedContent]]]],
      journal = []\<rparr>"

text \<open>
  The paths of the folders below a folder.
\<close>

fun foldersUnder :: "jsstring \<Rightarrow> vnode list \<Rightarrow> jsstring list" where
  "foldersUnder folderPath [] = []"
| "foldersUnder folderPath (TFile n c # children) = foldersUnder folderPath children"
| "foldersUnder folderPath (TFolder n cs # children) =
     childPath folderPath n # foldersUnder (childPath folderPath n) cs
       @ foldersUnder folderPath children"

chapter \<open>Properties\<close>

lemma js_simps [simp]: "js [] = []" "js (c # cs) = of_char c # js cs"
  by (simp_all add: js_def)

section \<open>Splitting and joining\<close>

lemma splitOn_not_Nil [simp]: "splitOn c s \<noteq> []"
  by (induction s) (auto split: list.splits)

lemma splitOn_no_sep: "c \<notin> set s \<Longrightarrow> splitOn c s = [s]"
  by (induction s) auto

lemma splitOn_append_sep: "splitOn c (a @ c # b) = splitOn c a @ splitOn c b"
  by (induction a) (auto split: list.splits)

lemma splitOn_append_no_sep:
  "c \<notin> set a \<Longrightarrow> splitOn c (a @ b) = (a @ hd (splitOn c b)) # tl (splitOn c b)"
  by (induction a) (auto split: list.splits)

lemma joinWith_Cons:
  "joinWith sep (p # ps) = (if ps = [] then p else p @ sep @ joinWith sep ps)"
  by (cases ps) auto

lemma splitOn_joinWith:
  "segs \<noteq> [] \<Longrightarrow> \<forall>s \<in> set segs. c \<notin> set s \<Longrightarrow> splitOn c (joinWith [c] segs) = segs"
proof (induction segs)
  case Nil then show ?case by simp
next
  case (Cons p ps)
  show ?case
  proof (cases "ps = []")
    case True with Cons.prems show ?thesis by (simp add: splitOn_no_sep)
  next
    case False
    with Cons show ?thesis
      by (simp add: joinWith_Cons splitOn_append_sep splitOn_no_sep)
  qed
qed

lemma joinWith_splitOn: "joinWith [c] (splitOn c s) = s"
proof (induction s)
  case Nil show ?case by simp
next
  case (Cons x xs)
  obtain p ps where sp: "splitOn c xs = p # ps" by (cases "splitOn c xs") auto
  with Cons show ?case by (auto simp: joinWith_Cons)
qed

section \<open>Backlink targets\<close>

text \<open>
  Claim C8. For the remote path \<open>README.md\<close> the backlink target is the base folder, for
  \<open>docs/guide.md\<close> it is \<open>base/owner/repo/README\<close>, and for \<open>docs/guides/deploy.md\<close> it
  is \<open>base/owner/repo/docs/README\<close>. In general, for a path made of the directories
  \<open>dirs\<close> and a file name: with no directory the target is the base folder, with one
  directory it is the README at the root of the repository, and with two or more it is
  the README one directory level up (the directories without the last one).
\<close>

theorem calculateBacklinkTarget_by_depth:
  "calculateBacklinkTarget st (repoFolderPath (st_baseFolder st) ownr rep) (js ''README.md'')
     = st_baseFolder st
   \<and> calculateBacklinkTarget st (repoFolderPath (st_baseFolder st) ownr rep)
       (js ''docs/guide.md'')
     = st_baseFolder st @ js ''/'' @ ownr @ js ''/'' @ rep @ js ''/README''
   \<and> calculateBacklinkTarget st (repoFolderPath (st_baseFolder st) ownr rep)
       (js ''docs/guides/deploy.md'')
     = st_baseFolder st @ js ''/'' @ ownr @ js ''/'' @ rep @ js ''/docs/README''
   \<and> ((\<forall>s \<in> set (dirs @ [fileName]). 47 \<notin> set s) \<longrightarrow>
        calculateBacklinkTarget st baseFolderPath (joinWith (js ''/'') (dirs @ [fileName])) =
          (if length dirs = 0 then st_baseFolder st
           else if length dirs = 1 then baseFolderPath @ js ''/README''
           else baseFolderPath @ js ''/'' @ joinWith (js ''/'') (butlast dirs)
                  @ js ''/README''))"
proof (intro conjI impI)
  assume sep: "\<forall>s \<in> set (dirs @ [fileName]). 47 \<notin> set s"
  have "splitOn 47 (joinWith (js ''/'') (dirs @ [fileName])) = dirs @ [fileName]"
    using splitOn_joinWith[of "dirs @ [fileName]" 47] sep by simp
  then have "calculateBacklinkTarget st baseFolderPath
               (joinWith (js ''/'') (dirs @ [fileName])) =
           (if dirs = [] then st_baseFolder st
            else if butlast dirs = [] then baseFolderPath @ js ''/README''
            else baseFolderPath @ js ''/'' @ joinWith (js ''/'') (butlast dirs)
                   @ js ''/README'')"
    by (simp add: calculateBacklinkTarget_def Let_def)
  moreover have "butlast dirs = [] \<longleftrightarrow> length dirs = 0 \<or> length dirs = 1"
    by (cases dirs rule: rev_cases) auto
  ultimately show "calculateBacklinkTarget st baseFolderPath
                     (joinWith (js ''/'') (dirs @ [fileName])) =
          (if length dirs = 0 then st_baseFolder st
           else if length dirs = 1 then baseFolderPath @ js ''/README''
           else baseFolderPath @ js ''/'' @ joinWith (js ''/'') (butlast dirs)
                  @ js ''/README'')"
    by auto
qed (simp_all add: calculateBacklinkTarget_def repoFolderPath_def)

theorem calculateBacklinkTarget_by_depth_witness:
  "calculateBacklinkTarget sampleSettings (js ''Projects/octo/site'')
     (js ''docs/api/v2/index.md'')
   = js ''Projects/octo/site/docs/api/README''"
  using calculateBacklinkTarget_by_depth
    [of sampleSettings "[]" "[]" "[js ''docs'', js ''api'', js ''v2'']" "js ''index.md''"
        "js ''Projects/octo/site''"]
  by simp

section \<open>Repository filters\<close>

text \<open>
  Claim C9. With the filters \<open>includePrivate = false\<close> and \<open>includeForks = false\<close>, the
  repositories \<open>a\<close> (public, no fork), \<open>b\<close> (private) and \<open>c\<close> (a fork), none archived and
  all with names that match the glob, are filtered to exactly \<open>a\<close>. In general a
  repository passes if and only if it is not private or private ones are included, it
  is not archived or archived ones are included, it is not a fork or forks are
  included, and its name matches the glob, where the glob \<open>*\<close> means no filtering (and
  so does an empty glob, which the guard of the source treats like \<open>*\<close>).
\<close>

theorem filterRepositories_composition:
  "(r \<in> set (filterRepositories isMatch repos filters) \<longleftrightarrow>
      r \<in> set repos
      \<and> (\<not> repo_private r \<or> includePrivate filters)
      \<and> (\<not> repo_archived r \<or> includeArchived filters)
      \<and> (\<not> repo_fork r \<or> includeForks filters)
      \<and> (repoGlob filters = [] \<or> repoGlob filters = js ''*''
           \<or> isMatch (repo_name r) (repoGlob filters)))
   \<and> (\<not> repo_private a \<and> \<not> repo_fork a \<and> \<not> repo_archived a
        \<and> repo_private b \<and> \<not> repo_fork b \<and> \<not> repo_archived b
        \<and> \<not> repo_private c \<and> repo_fork c \<and> \<not> repo_archived c
        \<and> (\<forall>x \<in> {a, b, c}. repoGlob filters = js ''*''
              \<or> isMatch (repo_name x) (repoGlob filters))
        \<and> \<not> includePrivate filters \<and> \<not> includeForks filters
      \<longrightarrow> filterRepositories isMatch [a, b, c] filters = [a])"
  by (auto simp: filterRepositories_def)

theorem filterRepositories_composition_witness:
  "filterRepositories (\<lambda>name glob. prefix (js ''my-'') name)
     [sampleRepo ''my-a'' False False, sampleRepo ''my-b'' True False,
      sampleRepo ''my-c'' False True]
     \<lparr>includePrivate = False, includeForks = False, includeArchived = False,
      repoGlob = js ''my-*''\<rparr>
   = [sampleRepo ''my-a'' False False]"
  using filterRepositories_composition
    [of "sampleRepo ''my-a'' False False" "\<lambda>name glob. prefix (js ''my-'') name" "[]"
        "\<lparr>includePrivate = False, includeForks = False, includeArchived = False,
          repoGlob = js ''my-*''\<rparr>"
        "sampleRepo ''my-a'' False False" "sampleRepo ''my-b'' True False"
        "sampleRepo ''my-c'' False True"]
  by (simp add: sampleRepo_def)

section \<open>Pagination of the repository listing\<close>

lemma getUserReposLoop_short:
  assumes "request page = Inr pageRepos" "length pageRepos < perPage"
  shows "getUserReposLoop request page repos requested
           = Some (Inr (repos @ pageRepos), requested @ [page])"
  using assms by (subst getUserReposLoop.simps) auto

lemma getUserReposLoop_full:
  assumes "request page = Inr pageRepos" "length pageRepos = perPage"
  shows "getUserReposLoop request page repos requested
           = getUserReposLoop request (Suc page) (repos @ pageRepos) (requested @ [page])"
  using assms by (subst getUserReposLoop.simps) (auto simp: perPage_def)

lemma getUserReposLoop_run:
  assumes "\<forall>i. page \<le> i \<and> i < page + n \<longrightarrow> (\<exists>p. request i = Inr p \<and> length p = perPage)"
    and "request (page + n) = Inr lastPage" "length lastPage < perPage"
  shows "getUserReposLoop request page repos requested
           = Some (Inr (repos @ concat (map (pageOf request) [page ..< page + n]) @ lastPage),
                   requested @ [page ..< page + n] @ [page + n])"
  using assms
proof (induction n arbitrary: page repos requested)
  case 0
  then show ?case by (simp add: getUserReposLoop_short)
next
  case (Suc n)
  from Suc.prems(1) obtain p where p: "request page = Inr p" "length p = perPage"
    by (auto dest: spec[of _ page])
  have pp: "pageOf request page = p" using p by (simp add: pageOf_def)
  have upt: "[page ..< page + Suc n] = page # [Suc page ..< Suc page + n]"
    by (simp add: upt_conv_Cons del: upt_Suc)
  have "getUserReposLoop request page repos requested
          = getUserReposLoop request (Suc page) (repos @ p) (requested @ [page])"
    using p by (rule getUserReposLoop_full)
  also have "\<dots> = Some (Inr ((repos @ p)
                       @ concat (map (pageOf request) [Suc page ..< Suc page + n]) @ lastPage),
                   (requested @ [page]) @ [Suc page ..< Suc page + n] @ [Suc page + n])"
    using Suc.prems by (intro Suc.IH) auto
  also have "\<dots> = Some (Inr (repos @ concat (map (pageOf request) [page ..< page + Suc n])
                       @ lastPage),
                   requested @ [page ..< page + Suc n] @ [page + Suc n])"
    unfolding upt by (simp add: pp del: upt_Suc)
  finally show ?case .
qed

text \<open>
  Claim C7. When the first page of the listing has exactly the page size (100) of
  entries and the second page is empty, \<open>getUserRepos\<close> returns the two pages one after
  the other and requests the pages 1 and 2 only. In general, when the pages before page
  \<open>k\<close> are full and page \<open>k\<close> has fewer entries than the page size, the call returns the
  pages up to \<open>k\<close> and page \<open>k\<close> is the last one it requests.
\<close>

theorem getUserRepos_pagination:
  "(request 1 = Inr firstPage \<and> length firstPage = perPage \<and> request 2 = Inr []
      \<longrightarrow> getUserRepos request = Some (Inr (firstPage @ []), [1, 2]))
   \<and> ((\<forall>i. 1 \<le> i \<and> i < k \<longrightarrow> (\<exists>p. request i = Inr p \<and> length p = perPage))
        \<and> 1 \<le> k \<and> request k = Inr lastPage \<and> length lastPage < perPage
      \<longrightarrow> getUserRepos request
            = Some (Inr (concat (map (pageOf request) [1 ..< k]) @ lastPage),
                    [1 ..< k] @ [k]))"
proof (intro conjI impI)
  assume a: "request 1 = Inr firstPage \<and> length firstPage = perPage \<and> request 2 = Inr []"
  then have "getUserReposLoop request 1 [] []
               = getUserReposLoop request (Suc 1) ([] @ firstPage) ([] @ [1])"
    by (intro getUserReposLoop_full) auto
  also have "\<dots> = Some (Inr (firstPage @ []), [1, 2])"
    using a by (subst getUserReposLoop.simps) (simp add: numeral_2_eq_2)
  finally show "getUserRepos request = Some (Inr (firstPage @ []), [1, 2])"
    by (simp add: getUserRepos_def)
next
  assume a: "(\<forall>i. 1 \<le> i \<and> i < k \<longrightarrow> (\<exists>p. request i = Inr p \<and> length p = perPage))
        \<and> 1 \<le> k \<and> request k = Inr lastPage \<and> length lastPage < perPage"
  then obtain n where k: "k = 1 + n" by (metis le_Suc_ex)
  show "getUserRepos request
            = Some (Inr (concat (map (pageOf request) [1 ..< k]) @ lastPage), [1 ..< k] @ [k])"
    using getUserReposLoop_run[of 1 n request lastPage "[]" "[]"] a
    unfolding k getUserRepos_def by simp
qed

theorem getUserRepos_pagination_witness:
  "getUserRepos
     (\<lambda>i. if i = 1 then Inr (replicate 100 (sampleRepo ''a'' False False))
          else if i = 2 then Inr (replicate 100 (sampleRepo ''b'' False False))
          else if i = 3 then Inr [sampleRepo ''c'' False False]
          else Inl ApiFailure)
     = Some (Inr (replicate 100 (sampleRepo ''a'' False False)
                  @ replicate 100 (sampleRepo ''b'' False False)
                  @ [sampleRepo ''c'' False False]),
             [1, 2, 3])"
  using getUserRepos_pagination
    [of "\<lambda>i. if i = 1 then Inr (replicate 100 (sampleRepo ''a'' False False))
             else if i = 2 then Inr (replicate 100 (sampleRepo ''b'' False False))
             else if i = 3 then Inr [sampleRepo ''c'' False False]
             else Inl ApiFailure"
        "[]" 3 "[sampleRepo ''c'' False False]"]
  by (simp add: perPage_def pageOf_def upt_conv_Cons)

section \<open>Searching in strings\<close>

lemma search_Some_D:
  "search p s = Some i \<Longrightarrow> prefix p (drop i s) \<and> i \<le> length s \<and> (\<forall>j<i. \<not> prefix p (drop j s))"
proof (induction s arbitrary: i)
  case Nil then show ?case by (auto split: if_splits)
next
  case (Cons x xs)
  show ?case
  proof (cases "prefix p (x # xs)")
    case True with Cons.prems show ?thesis by simp
  next
    case False
    with Cons.prems obtain k where k: "search p xs = Some k" "i = Suc k" by auto
    have ih: "prefix p (drop k xs)" "k \<le> length xs" "\<forall>j<k. \<not> prefix p (drop j xs)"
      using Cons.IH[OF k(1)] by auto
    have "\<not> prefix p (drop j (x # xs))" if "j < Suc k" for j
      using that False ih(3) by (cases j) auto
    with ih show ?thesis unfolding k(2) by simp
  qed
qed

lemma search_None_D: "search p s = None \<Longrightarrow> j \<le> length s \<Longrightarrow> \<not> prefix p (drop j s)"
proof (induction s arbitrary: j)
  case Nil then show ?case by (auto split: if_splits)
next
  case (Cons x xs)
  then show ?case by (cases j) (auto split: if_splits)
qed

lemma search_SomeI:
  "prefix p (drop i s) \<Longrightarrow> i \<le> length s \<Longrightarrow> \<forall>j<i. \<not> prefix p (drop j s) \<Longrightarrow> search p s = Some i"
proof (induction s arbitrary: i)
  case Nil then show ?case by auto
next
  case (Cons x xs)
  show ?case
  proof (cases i)
    case 0 with Cons.prems show ?thesis by simp
  next
    case (Suc k)
    have "\<not> prefix p (drop 0 (x # xs))" using Cons.prems(3) Suc by blast
    then have np: "\<not> prefix p (x # xs)" by simp
    have "\<not> prefix p (drop j xs)" if "j < k" for j
    proof -
      have "\<not> prefix p (drop (Suc j) (x # xs))" using Cons.prems(3) Suc that by blast
      then show ?thesis by simp
    qed
    then have "search p xs = Some k"
      using Cons.prems(1,2) Suc by (intro Cons.IH) auto
    with np show ?thesis by (simp add: Suc)
  qed
qed


lemma prefix_take_iff: "prefix p u \<longleftrightarrow> take (length p) u = p"
proof
  assume "prefix p u" then show "take (length p) u = p" by (auto simp: prefix_def)
next
  assume "take (length p) u = p"
  then have "u = p @ drop (length p) u" by (metis append_take_drop_id)
  then show "prefix p u" by (metis prefixI)
qed

lemma search_length: "search p s = Some i \<Longrightarrow> i + length p \<le> length s"
proof -
  assume "search p s = Some i"
  then have "prefix p (drop i s)" "i \<le> length s" by (auto dest: search_Some_D)
  then have "length p \<le> length s - i" by (auto dest!: prefix_length_le)
  with \<open>i \<le> length s\<close> show ?thesis by simp
qed

lemma search_decomp: "search p s = Some i \<Longrightarrow> s = take i s @ p @ drop (i + length p) s"
proof -
  assume a: "search p s = Some i"
  then have "take (length p) (drop i s) = p" by (simp add: search_Some_D prefix_take_iff[symmetric])
  then have "drop i s = p @ drop (length p) (drop i s)" by (metis append_take_drop_id)
  then have "drop i s = p @ drop (i + length p) s" by (simp add: add.commute)
  then show ?thesis by (metis append_take_drop_id)
qed


lemma window_take:
  assumes "take n t = take n s" "j + k \<le> n"
  shows "take k (drop j t) = take k (drop j s)"
proof -
  have *: "take k (drop j u) = drop j (take (j + k) (take n u))" for u :: "'a list"
    using assms(2) by (simp add: drop_take min_def)
  show ?thesis unfolding * assms(1) ..
qed

lemma search_stable:
  assumes "search p s = Some i" "take (i + length p) t = take (i + length p) s"
  shows "search p t = Some i"
proof (rule search_SomeI)
  have len: "i + length p \<le> length s" using assms(1) by (rule search_length)
  have "length (take (i + length p) t) = i + length p"
    using len by (simp add: assms(2))
  then have lt: "i + length p \<le> length t" by simp
  show "i \<le> length t" using lt by simp
  have pre: "prefix p (drop i s)" "\<forall>j<i. \<not> prefix p (drop j s)"
    using search_Some_D[OF assms(1)] by auto
  have win: "take (length p) (drop j t) = take (length p) (drop j s)" if "j \<le> i" for j
    using assms(2) by (rule window_take) (use that in simp)
  show "prefix p (drop i t)" using pre(1) win[of i] by (simp add: prefix_take_iff)
  show "\<forall>j<i. \<not> prefix p (drop j t)" using pre(2) win by (simp add: prefix_take_iff)
qed

lemma search_append_stable:
  "search p s = Some i \<Longrightarrow> search p (take (i + length p) s @ r) = Some i"
  by (rule search_stable, assumption) (use search_length[of p s i] in simp)

lemma search_appendI: "search p a = Some i \<Longrightarrow> search p (a @ b) = Some i"
  by (rule search_stable, assumption) (use search_length[of p a i] in simp)

lemma search_skip:
  "hd p \<notin> set l \<Longrightarrow> p \<noteq> [] \<Longrightarrow> search p (l @ s) = map_option (\<lambda>i. length l + i) (search p s)"
proof (induction l)
  case Nil then show ?case by (simp add: option.map_ident)
next
  case (Cons x l)
  then have "\<not> prefix p (x # l @ s)" by (cases p) auto
  with Cons show ?case by (simp add: option.map_comp comp_def)
qed

lemma search_drop_None: "search p s = None \<Longrightarrow> search p (drop k s) = None"
proof (induction s arbitrary: k)
  case Nil then show ?case by simp
next
  case (Cons x xs) then show ?case by (cases k) (auto split: if_splits)
qed

section \<open>Substrings\<close>

lemma substring_nat:
  "substring s (int a) (int b) =
     take (max (min a (length s)) (min b (length s)) - min (min a (length s)) (min b (length s)))
       (drop (min (min a (length s)) (min b (length s))) s)"
proof -
  have 1: "max 0 (min (int a) (int (length s))) = int (min a (length s))" for a by simp
  show ?thesis
    unfolding substring_def Let_def 1
    by (simp only: of_nat_min[symmetric] of_nat_max[symmetric] of_nat_diff[symmetric] nat_int
          flip: of_nat_diff)
qed

lemma substring_take: "substring s 0 (int k) = take k s"
  using substring_nat[of s 0 k] by (simp add: min_def)

lemma substringFrom_drop: "substringFrom s (int k) = drop k s"
  using substring_nat[of s k "length s"] by (simp add: substringFrom_def min_def max_def)

lemma substring_mid: "a \<le> b \<Longrightarrow> substring s (int a) (int b) = take (b - a) (drop a s)"
  using substring_nat[of s a b] by (cases "b \<le> length s"; cases "a \<le> length s") (simp_all add: min_def max_def)

lemma substring_neg: "k < 0 \<Longrightarrow> substringFrom s k = s"
  by (simp add: substringFrom_def substring_def Let_def min_def max_def)

section \<open>Normal forms of the codec\<close>

lemma length_consts [simp]: "length hdr = 4" "length nl3 = 5" "length nl2 = 2"
  by (simp_all add: hdr_def nl3_def nl2_def)

lemma addReadonlyBanner_alt:
  "addReadonlyBanner c m =
     (if startsWith c hdr then
        (let k = (case search nl3 c of Some i \<Rightarrow> i + 5 | None \<Rightarrow> 4)
         in if includesStr (drop k c) bannerTitle then c
            else take k c @ bannerBlock m @ drop k c)
      else if includesStr c bannerTitle then c
      else bannerBlock m @ c)"
proof (cases "search nl3 c")
  case None
  have "(4::int) = int 4" by simp
  then show ?thesis
    unfolding addReadonlyBanner_def indexOf_def Let_def hdr_def[symmetric] nl3_def[symmetric] None
    by (simp only: option.case substring_take[symmetric] substringFrom_drop[symmetric])
       simp
next
  case (Some i)
  have "int i + 5 = int (i + 5)" by simp
  then show ?thesis
    unfolding addReadonlyBanner_def indexOf_def Let_def hdr_def[symmetric] nl3_def[symmetric] Some
    by (simp only: option.case substring_take substringFrom_drop)
qed

lemma addBacklink_alt:
  "addBacklink c t =
     (let k = headerEnd c + backlinkPos (drop (headerEnd c) c)
      in if backlinkPattern (drop k c) \<noteq> None then c
         else take k c @ backlinkLine t @ drop k c)"
proof -
  define k0 where "k0 = headerEnd c"
  have p0: "(if startsWith c (js ''---\<newline>'') then
               (if indexOf c (js ''\<newline>---\<newline>'') \<noteq> -1
                then indexOf c (js ''\<newline>---\<newline>'') + 5 else 0)
             else 0) = int k0"
    unfolding k0_def headerEnd_def indexOf_def hdr_def nl3_def
    by (auto split: option.splits)
  define r where "r = drop k0 c"
  have p1: "(if startsWith r bannerTitle then
               (if indexOf r (js ''\<newline>\<newline>'') \<noteq> -1
                then int k0 + (indexOf r (js ''\<newline>\<newline>'') + 2)
                else int k0)
             else int k0) = int (k0 + backlinkPos r)"
    unfolding backlinkPos_def indexOf_def nl2_def
    by (auto split: option.splits)
  have "addBacklink c t =
          (if backlinkPattern (drop (k0 + backlinkPos r) c) \<noteq> None then c
           else take (k0 + backlinkPos r) c @ backlinkLine t @ drop (k0 + backlinkPos r) c)"
    unfolding addBacklink_def Let_def
    unfolding p0 substringFrom_drop
    unfolding r_def[symmetric]
    unfolding p1 substringFrom_drop substring_take backlinkLine_def
    by simp
  then show ?thesis unfolding Let_def k0_def r_def .
qed

lemma includesStrI: "prefix p (drop j s) \<Longrightarrow> j \<le> length s \<Longrightarrow> includesStr s p"
  unfolding includesStr_def using search_None_D[of p s j] by auto

lemma includesStr_prefix: "prefix p s \<Longrightarrow> includesStr s p"
  using includesStrI[of p 0 s] by simp

lemma includesStr_appendL: "includesStr x p \<Longrightarrow> includesStr (a @ x) p"
proof -
  assume "includesStr x p"
  then obtain i where i: "search p x = Some i" by (auto simp: includesStr_def)
  then have "prefix p (drop i x)" "i \<le> length x" by (auto dest: search_Some_D)
  then have "prefix p (drop (length a + i) (a @ x))" "length a + i \<le> length (a @ x)" by auto
  then show ?thesis by (rule includesStrI)
qed

lemma includesStr_appendR: "includesStr x p \<Longrightarrow> includesStr (x @ a) p"
  by (auto simp: includesStr_def dest: search_appendI)

lemma includesStr_Cons_iff: "hd p \<noteq> c \<Longrightarrow> p \<noteq> [] \<Longrightarrow> includesStr (c # x) p = includesStr x p"
  by (cases p) (auto simp: includesStr_def)

section \<open>The backlink pattern\<close>

lemma lazyThen_close:
  assumes "\<forall>c \<in> set t. \<not> isLineTerminator c"
  shows "lazyThen backlinkClose (t @ backlinkClose @ rest) = Some (length t + 4)"
  using assms
proof (induction t)
  case Nil
  show ?case by (simp add: backlinkClose_def)
next
  case (Cons x t)
  have x: "x \<noteq> 10" using Cons.prems by (auto simp: isLineTerminator_def)
  have np: "\<not> prefix backlinkClose (x # t @ backlinkClose @ rest)"
  proof (cases t)
    case Nil then show ?thesis by (simp add: backlinkClose_def)
  next
    case (Cons y t')
    note outer = this
    show ?thesis
    proof (cases t')
      case Nil with outer show ?thesis by (simp add: backlinkClose_def)
    next
      case (Cons z t'')
      have "z \<noteq> 10" using Cons.prems outer Cons \<open>\<forall>c\<in>set (x # t). \<not> isLineTerminator c\<close>
        by (auto simp: isLineTerminator_def)
      with outer Cons show ?thesis by (simp add: backlinkClose_def)
    qed
  qed
  have "\<not> isLineTerminator x" using Cons.prems by simp
  with np Cons show ?case by simp
qed

lemma backlinkPattern_backlinkLine:
  assumes "\<forall>c \<in> set t. \<not> isLineTerminator c"
  shows "backlinkPattern (backlinkLine t @ rest) = Some (length (backlinkLine t))"
proof -
  have "backlinkLine t @ rest = backlinkOpen @ t @ backlinkClose @ rest"
    by (simp add: backlinkLine_def backlinkOpen_def backlinkClose_def)
  moreover have "length (backlinkLine t) = length backlinkOpen + (length t + 4)"
    by (simp add: backlinkLine_def backlinkOpen_def)
  ultimately show ?thesis
    using lazyThen_close[OF assms, of rest] by (simp add: backlinkPattern_def)
qed

lemma backlinkPattern_not_arrow: "s = [] \<or> hd s \<noteq> 8592 \<Longrightarrow> backlinkPattern s = None"
  by (cases s) (auto simp: backlinkPattern_def backlinkOpen_def)

section \<open>The banner title\<close>

lemma bannerTitle_facts:
  "length bannerTitle = 22" "10 \<notin> set bannerTitle" "hd bannerTitle = 62" "bannerTitle \<noteq> []"
  by (simp_all add: bannerTitle_def)

lemma startsWith_bannerTitle_nl2:
  assumes "startsWith x bannerTitle" "search nl2 x = Some j"
  shows "22 \<le> j"
proof (rule ccontr)
  assume "\<not> 22 \<le> j"
  then have j: "j < 22" by simp
  from assms(1) obtain y where x: "x = bannerTitle @ y" by (auto simp: startsWith_def prefix_def)
  have "prefix nl2 (drop j x)" using assms(2) by (simp add: search_Some_D)
  then have "hd (drop j x) = 10" by (cases "drop j x") (auto simp: nl2_def)
  moreover have "hd (drop j x) = bannerTitle ! j"
    using j by (simp add: x bannerTitle_facts hd_drop_conv_nth nth_append)
  moreover have "bannerTitle ! j \<in> set bannerTitle" using j by (simp add: bannerTitle_facts)
  ultimately show False using bannerTitle_facts(2) by simp
qed

section \<open>The steps after the header\<close>

lemma backlinkPos_le: "backlinkPos x \<le> length x"
  by (auto simp: backlinkPos_def split: option.splits dest: search_length)

lemma backlinkPos_cases:
  obtains (zero) "backlinkPos x = 0" "\<not> startsWith x bannerTitle \<or> search nl2 x = None"
  | (banner) j where "backlinkPos x = j + 2" "startsWith x bannerTitle" "search nl2 x = Some j"
proof (cases "startsWith x bannerTitle")
  case False
  then show ?thesis using zero by (simp add: backlinkPos_def)
next
  case True
  show ?thesis
  proof (cases "search nl2 x")
    case None
    with True show ?thesis using zero by (simp add: backlinkPos_def)
  next
    case (Some j)
    with True show ?thesis using banner[of j] by (simp add: backlinkPos_def)
  qed
qed

lemma backlinkPos_insert:
  "backlinkPos (take (backlinkPos x) x @ backlinkLine t @ r) = backlinkPos x"
proof (cases x rule: backlinkPos_cases)
  case zero
  have "\<not> startsWith (backlinkLine t @ r) bannerTitle"
    by (simp add: startsWith_def backlinkLine_def bannerTitle_def)
  with zero show ?thesis by (simp add: backlinkPos_def)
next
  case (banner j)
  have j: "22 \<le> j" using banner(2,3) by (rule startsWith_bannerTitle_nl2)
  have "prefix bannerTitle (take (j + 2) x)"
    using banner(2) j by (auto simp: startsWith_def prefix_def bannerTitle_facts)
  then have 1: "startsWith (take (j + 2) x @ backlinkLine t @ r) bannerTitle"
    by (simp add: startsWith_def prefix_prefix)
  have 2: "search nl2 (take (j + 2) x @ backlinkLine t @ r) = Some j"
    using search_append_stable[OF banner(3), of "backlinkLine t @ r"] by simp
  show ?thesis unfolding banner(1) using 1 2 by (simp add: backlinkPos_def)
qed

lemma backlinkStep_idem:
  assumes "\<forall>c \<in> set t. \<not> isLineTerminator c"
  shows "backlinkStep t (backlinkStep t x) = backlinkStep t x"
proof (cases "backlinkPattern (drop (backlinkPos x) x) \<noteq> None")
  case True
  then have "backlinkStep t x = x" by (simp add: backlinkStep_def Let_def)
  then show ?thesis by simp
next
  case False
  define k where "k = backlinkPos x"
  define z where "z = take k x @ backlinkLine t @ drop k x"
  have z: "backlinkStep t x = z" using False by (simp add: backlinkStep_def z_def k_def Let_def)
  have kz: "backlinkPos z = k" unfolding z_def k_def by (rule backlinkPos_insert)
  have "k \<le> length x" unfolding k_def by (rule backlinkPos_le)
  then have "drop k z = backlinkLine t @ drop k x" by (simp add: z_def)
  then have "backlinkPattern (drop k z) \<noteq> None"
    using backlinkPattern_backlinkLine[OF assms] by simp
  then have "backlinkStep t z = z" by (simp add: backlinkStep_def kz Let_def)
  then show ?thesis by (simp add: z)
qed

lemma backlinkStep_includes:
  assumes "includesStr x bannerTitle"
  shows "includesStr (backlinkStep t x) bannerTitle"
proof (cases "backlinkPattern (drop (backlinkPos x) x) \<noteq> None")
  case True
  then show ?thesis using assms by (simp add: backlinkStep_def Let_def)
next
  case False
  then have z: "backlinkStep t x = take (backlinkPos x) x @ backlinkLine t @ drop (backlinkPos x) x"
    by (simp add: backlinkStep_def Let_def)
  show ?thesis
  proof (cases x rule: backlinkPos_cases)
    case zero
    then show ?thesis unfolding z using assms by (simp add: includesStr_appendL)
  next
    case (banner j)
    have j: "22 \<le> j" using banner(2,3) by (rule startsWith_bannerTitle_nl2)
    have "prefix bannerTitle (take (j + 2) x)"
      using banner(2) j by (auto simp: startsWith_def prefix_def bannerTitle_facts)
    then show ?thesis unfolding z banner(1)
      by (intro includesStr_prefix) (simp add: prefix_prefix)
  qed
qed

lemma bannerStep_includes: "includesStr (bannerStep m x) bannerTitle"
  by (auto simp: bannerStep_def bannerBlock_def intro: includesStr_prefix)

lemma bannerStep_idem: "includesStr x bannerTitle \<Longrightarrow> bannerStep m x = x"
  by (simp add: bannerStep_def)

section \<open>Closed headers\<close>

lemma closedHeader_append:
  assumes "closedHeader h"
  shows "startsWith (h @ x) hdr" "search nl3 (h @ x) = Some (length h - 5)"
    "headerEnd (h @ x) = length h"
proof -
  show 1: "startsWith (h @ x) hdr" using assms by (auto simp: closedHeader_def startsWith_def)
  show 2: "search nl3 (h @ x) = Some (length h - 5)"
    using assms by (auto simp: closedHeader_def intro: search_appendI)
  show "headerEnd (h @ x) = length h"
    using 1 2 assms by (simp add: headerEnd_def closedHeader_def)
qed

lemma closedHeader_take:
  assumes "startsWith c hdr" "search nl3 c = Some i"
  shows "closedHeader (take (i + 5) c)"
proof -
  have len: "i + 5 \<le> length c" using search_length[OF assms(2)] by simp
  have "search nl3 (take (i + 5) c @ []) = Some i"
    using search_append_stable[OF assms(2), of "[]"] by simp
  moreover have "startsWith (take (i + 5) c) hdr"
    using assms(1) by (auto simp: startsWith_def prefix_def)
  ultimately show ?thesis using len by (simp add: closedHeader_def)
qed

lemma addFrontmatterIfMissing_closed:
  "closedHeader h \<Longrightarrow> addFrontmatterIfMissing now (h @ x) m = h @ x"
  using closedHeader_append(1)[of h x] by (simp add: addFrontmatterIfMissing_def hdr_def)

lemma addReadonlyBanner_closed:
  "closedHeader h \<Longrightarrow> addReadonlyBanner (h @ x) m = h @ bannerStep m x"
  using closedHeader_append(1,2)[of h x]
  by (simp add: addReadonlyBanner_alt closedHeader_def bannerStep_def)

lemma addBacklink_closed:
  "closedHeader h \<Longrightarrow> addBacklink (h @ x) t = h @ backlinkStep t x"
  using closedHeader_append(3)[of h x]
  by (simp add: addBacklink_alt backlinkStep_def Let_def)

section \<open>Idempotence of the pipeline\<close>

lemma processFileContent_closed:
  assumes "closedHeader h"
  shows "processFileContent now (h @ x) m opts = h @ afterHeader m opts x"
proof -
  have 1: "(if optAddFrontmatter opts then addFrontmatterIfMissing now (h @ x) m else h @ x)
             = h @ x"
    using assms by (simp add: addFrontmatterIfMissing_closed)
  show ?thesis
    unfolding processFileContent_def Let_def 1 afterHeader_def
    using assms
    by (auto simp: addReadonlyBanner_closed addBacklink_closed split: option.splits)
qed

lemma afterHeader_idem:
  assumes "\<forall>t. optBacklinkTarget opts = Some t \<longrightarrow> (\<forall>c \<in> set t. \<not> isLineTerminator c)"
  shows "afterHeader m opts (afterHeader m opts x) = afterHeader m opts x"
proof -
  define y where "y = (if optAddReadonlyBanner opts then bannerStep m x else x)"
  have yb: "optAddReadonlyBanner opts \<Longrightarrow> includesStr y bannerTitle"
    by (simp add: y_def bannerStep_includes)
  show ?thesis
  proof (cases "\<exists>t. optBacklinkTarget opts = Some t \<and> optAddBacklinks opts \<and> t \<noteq> []")
    case True
    then obtain t where t: "optBacklinkTarget opts = Some t" "optAddBacklinks opts" "t \<noteq> []"
      by blast
    have lt: "\<forall>c \<in> set t. \<not> isLineTerminator c" using assms t(1) by blast
    have a: "afterHeader m opts x = backlinkStep t y"
      using t by (simp add: afterHeader_def y_def)
    have b: "(if optAddReadonlyBanner opts then bannerStep m (backlinkStep t y)
              else backlinkStep t y) = backlinkStep t y"
      using yb by (auto intro: bannerStep_idem backlinkStep_includes)
    have "afterHeader m opts (backlinkStep t y) = backlinkStep t (backlinkStep t y)"
      unfolding afterHeader_def Let_def b using t by simp
    then show ?thesis using backlinkStep_idem[OF lt] by (simp add: a)
  next
    case False
    then have a: "afterHeader m opts z =
                    (if optAddReadonlyBanner opts then bannerStep m z else z)" for z
      by (auto simp: afterHeader_def split: option.splits)
    show ?thesis unfolding a using bannerStep_idem[OF bannerStep_includes] by auto
  qed
qed

lemma frontmatterBlock_decomp:
  "\<exists>pre. frontmatterBlock now m = hdr @ pre @ nl3 @ [10]"
  by (rule exI[of _ "js ''github_repo: '' @ meta_owner m @ js ''/'' @ meta_repo m @
     js ''\<newline>github_path: '' @ meta_path m @
     js ''\<newline>github_url: '' @ meta_githubUrl m @
     js ''\<newline>synced_at: '' @ now @
     js ''\<newline>readonly: true''"])
     (simp add: frontmatterBlock_def hdr_def nl3_def)

lemma header_after_first_step:
  assumes "startsWith b hdr \<longrightarrow> includesStr b nl3"
  shows "\<exists>h x. addFrontmatterIfMissing now b m = h @ x \<and> closedHeader h"
proof -
  define c where "c = addFrontmatterIfMissing now b m"
  have s: "startsWith c hdr"
    using frontmatterBlock_decomp[of now m]
    by (auto simp: c_def addFrontmatterIfMissing_def startsWith_def hdr_def)
  have "includesStr c nl3"
  proof (cases "startsWith b hdr")
    case True
    then show ?thesis using assms by (simp add: c_def addFrontmatterIfMissing_def hdr_def)
  next
    case False
    obtain pre where pre: "frontmatterBlock now m = hdr @ pre @ nl3 @ [10]"
      using frontmatterBlock_decomp by blast
    have "includesStr ((hdr @ pre) @ nl3 @ [10] @ b) nl3"
      by (intro includesStr_appendL includesStr_prefix) simp
    with False show ?thesis by (simp add: c_def addFrontmatterIfMissing_def hdr_def pre)
  qed
  then obtain i where i: "search nl3 c = Some i" by (auto simp: includesStr_def)
  have "closedHeader (take (i + 5) c)" using s i by (rule closedHeader_take)
  moreover have "c = take (i + 5) c @ drop (i + 5) c" by simp
  ultimately show ?thesis unfolding c_def by blast
qed

text \<open>
  Claim C3, as amended. With the header step on, for every body that is not an
  unterminated header block (it does not start with the opening delimiter, or it has a
  closing delimiter) and every backlink target without a line terminator, a second run
  of the pipeline on its own output returns that output unchanged. The header of the
  first run stays as it is, with its \<open>synced_at\<close> value: the second run detects it and
  does not write a new one.
\<close>

theorem processFileContent_idempotent:
  assumes "optAddFrontmatter opts"
    and "startsWith b (js ''---\<newline>'') \<longrightarrow> indexOf b (js ''\<newline>---\<newline>'') \<noteq> -1"
    and "\<forall>t. optBacklinkTarget opts = Some t \<longrightarrow> (\<forall>c \<in> set t. \<not> isLineTerminator c)"
  shows "processFileContent now2 (processFileContent now1 b m opts) m opts
           = processFileContent now1 b m opts"
proof -
  have "startsWith b hdr \<longrightarrow> includesStr b nl3"
    using assms(2) by (auto simp: hdr_def nl3_def includesStr_def indexOf_def split: option.splits)
  then obtain h x where hx: "addFrontmatterIfMissing now1 b m = h @ x" "closedHeader h"
    using header_after_first_step by blast
  have "addFrontmatterIfMissing now1 (h @ x) m = h @ x"
    using hx(2) by (rule addFrontmatterIfMissing_closed)
  then have "processFileContent now1 b m opts = processFileContent now1 (h @ x) m opts"
    using assms(1) hx(1) by (simp add: processFileContent_def)
  then have 1: "processFileContent now1 b m opts = h @ afterHeader m opts x"
    using hx(2) by (simp add: processFileContent_closed)
  show ?thesis
    unfolding 1 using hx(2) afterHeader_idem[OF assms(3)]
    by (simp add: processFileContent_closed)
qed

theorem processFileContent_idempotent_witness:
  "processFileContent (js ''2026-01-02T00:00:00.000Z'')
     (processFileContent (js ''2026-01-01T00:00:00.000Z'') (js ''# Title'') sampleMetadata
        sampleOptions)
     sampleMetadata sampleOptions
   = processFileContent (js ''2026-01-01T00:00:00.000Z'') (js ''# Title'') sampleMetadata
       sampleOptions"
  using processFileContent_idempotent
    [of sampleOptions "js ''# Title''" "js ''2026-01-02T00:00:00.000Z''"
        "js ''2026-01-01T00:00:00.000Z''" sampleMetadata]
  by (simp add: sampleOptions_def startsWith_def isLineTerminator_def)

text \<open>
  A case that the code misses, and that the amended claim leaves out: a body that starts
  with the opening delimiter and has no closing one. \<open>addReadonlyBanner\<close> does not test
  the result of \<open>indexOf\<close> and puts the banner after the four code units of the
  delimiter, and \<open>addBacklink\<close> puts the backlink in front of everything. The first run
  adds no header (and so no timestamp, whatever the clock). Its output no longer starts
  with the delimiter, so the second run does add a header: the two documents differ in
  more than a timestamp.
\<close>

theorem processFileContent_not_idempotent:
  "processFileContent (js ''2026-01-01T00:00:00.000Z'') (js ''---\<newline>foo'') sampleMetadata
     sampleOptions
     = backlinkLine (js ''Projects/octo/site/README'') @ js ''---\<newline>''
         @ bannerBlock sampleMetadata @ js ''foo''
   \<and> processFileContent (js ''2026-01-02T00:00:00.000Z'') (js ''---\<newline>foo'') sampleMetadata
       sampleOptions
     = processFileContent (js ''2026-01-01T00:00:00.000Z'') (js ''---\<newline>foo'')
         sampleMetadata sampleOptions
   \<and> processFileContent (js ''2026-01-02T00:00:00.000Z'')
       (processFileContent (js ''2026-01-01T00:00:00.000Z'') (js ''---\<newline>foo'')
          sampleMetadata sampleOptions)
       sampleMetadata sampleOptions
     \<noteq> processFileContent (js ''2026-01-01T00:00:00.000Z'') (js ''---\<newline>foo'')
         sampleMetadata sampleOptions"
proof -
  have 1: "processFileContent now (js ''---\<newline>foo'') sampleMetadata sampleOptions
     = backlinkLine (js ''Projects/octo/site/README'') @ js ''---\<newline>''
         @ bannerBlock sampleMetadata @ js ''foo''" for now
    by (simp add: processFileContent_def sampleOptions_def addFrontmatterIfMissing_def
          addReadonlyBanner_alt addBacklink_alt startsWith_def hdr_def nl3_def nl2_def
          includesStr_def bannerTitle_def bannerBlock_def sampleMetadata_def headerEnd_def
          backlinkPos_def backlinkPattern_def backlinkOpen_def backlinkLine_def)
  have 2: "hd (processFileContent now2
             (backlinkLine (js ''Projects/octo/site/README'') @ js ''---\<newline>''
                @ bannerBlock sampleMetadata @ js ''foo'') sampleMetadata sampleOptions)
           \<noteq> hd (backlinkLine (js ''Projects/octo/site/README'') @ js ''---\<newline>''
                @ bannerBlock sampleMetadata @ js ''foo'')" for now2
  proof -
    have "\<exists>h x. addFrontmatterIfMissing now2
             (backlinkLine (js ''Projects/octo/site/README'') @ js ''---\<newline>''
                @ bannerBlock sampleMetadata @ js ''foo'') sampleMetadata = h @ x \<and> closedHeader h"
      by (rule header_after_first_step) (simp add: startsWith_def hdr_def backlinkLine_def)
    then obtain h x where hx: "addFrontmatterIfMissing now2
             (backlinkLine (js ''Projects/octo/site/README'') @ js ''---\<newline>''
                @ bannerBlock sampleMetadata @ js ''foo'') sampleMetadata = h @ x" "closedHeader h"
      by blast
    have "processFileContent now2
             (backlinkLine (js ''Projects/octo/site/README'') @ js ''---\<newline>''
                @ bannerBlock sampleMetadata @ js ''foo'') sampleMetadata sampleOptions
          = processFileContent now2 (h @ x) sampleMetadata sampleOptions"
      using hx by (simp add: processFileContent_def sampleOptions_def addFrontmatterIfMissing_closed)
    also have "\<dots> = h @ afterHeader sampleMetadata sampleOptions x"
      using hx(2) by (rule processFileContent_closed)
    finally have "hd (processFileContent now2
             (backlinkLine (js ''Projects/octo/site/README'') @ js ''---\<newline>''
                @ bannerBlock sampleMetadata @ js ''foo'') sampleMetadata sampleOptions) = 45"
      using hx(2) by (cases h) (auto simp: closedHeader_def startsWith_def hdr_def)
    then show ?thesis by (simp add: backlinkLine_def)
  qed
  show ?thesis
  proof (intro conjI)
    show "processFileContent (js ''2026-01-01T00:00:00.000Z'') (js ''---\<newline>foo'')
            sampleMetadata sampleOptions
          = backlinkLine (js ''Projects/octo/site/README'') @ js ''---\<newline>''
              @ bannerBlock sampleMetadata @ js ''foo''"
      by (rule 1)
    show "processFileContent (js ''2026-01-02T00:00:00.000Z'') (js ''---\<newline>foo'')
            sampleMetadata sampleOptions
          = processFileContent (js ''2026-01-01T00:00:00.000Z'') (js ''---\<newline>foo'')
              sampleMetadata sampleOptions"
      by (simp only: 1)
    show "processFileContent (js ''2026-01-02T00:00:00.000Z'')
       (processFileContent (js ''2026-01-01T00:00:00.000Z'') (js ''---\<newline>foo'')
          sampleMetadata sampleOptions)
       sampleMetadata sampleOptions
     \<noteq> processFileContent (js ''2026-01-01T00:00:00.000Z'') (js ''---\<newline>foo'')
         sampleMetadata sampleOptions"
      unfolding 1 using 2[of "js ''2026-01-02T00:00:00.000Z''"] by metis
  qed
qed

section \<open>Lines\<close>

lemma search_after_line:
  assumes "10 \<notin> set l"
  shows "search (10 # q) (l @ 10 # rest) =
           (if prefix q rest then Some (length l)
            else map_option (\<lambda>i. length l + 1 + i) (search (10 # q) rest))"
proof -
  have "search (10 # q) (l @ 10 # rest) =
          map_option (\<lambda>i. length l + i) (search (10 # q) (10 # rest))"
    using assms by (intro search_skip) auto
  then show ?thesis by (simp add: option.map_comp comp_def)
qed

lemma prefix_hdr_line:
  assumes "10 \<notin> set l"
  shows "prefix hdr (l @ 10 # rest) \<longleftrightarrow> l = js ''---''"
proof (cases l)
  case Nil then show ?thesis by (simp add: hdr_def)
next
  case (Cons a l1)
  note c1 = this
  show ?thesis
  proof (cases l1)
    case Nil with c1 show ?thesis by (auto simp: hdr_def)
  next
    case (Cons b l2)
    note c2 = this
    show ?thesis
    proof (cases l2)
      case Nil with c1 c2 show ?thesis by (auto simp: hdr_def)
    next
      case (Cons c l3)
      show ?thesis
      proof (cases l3)
        case Nil with c1 c2 Cons show ?thesis by (auto simp: hdr_def)
      next
        case (Cons d l4)
        with c1 c2 \<open>l2 = c # l3\<close> assms show ?thesis by (auto simp: hdr_def)
      qed
    qed
  qed
qed

text \<open>
  The first closing delimiter of a text made of a first line, lines that are not
  \<open>---\<close>, and the line \<open>---\<close>.
\<close>

lemma search_nl3_lines:
  assumes "10 \<notin> set x" "\<forall>l \<in> set mid. 10 \<notin> set l \<and> l \<noteq> js ''---''"
  shows "search nl3 (x @ 10 # joinWith [10] (mid @ [js ''---'', rest]))
           = Some (length x + length (concat (map (\<lambda>l. l @ [10]) mid)))"
  using assms
proof (induction mid arbitrary: x)
  case Nil
  have "nl3 = 10 # hdr" by (simp add: nl3_def hdr_def)
  then show ?case using search_after_line[OF Nil.prems(1), of hdr "js ''---'' @ 10 # rest"]
    by (simp add: hdr_def)
next
  case (Cons l mid)
  have nl3: "nl3 = 10 # hdr" by (simp add: nl3_def hdr_def)
  have l: "10 \<notin> set l" "l \<noteq> js ''---''" using Cons.prems(2) by auto
  define g where "g = joinWith [10] (mid @ [js ''---'', rest])"
  have j: "joinWith [10] ((l # mid) @ [js ''---'', rest]) = l @ 10 # g"
    by (simp add: joinWith_Cons g_def)
  have np: "\<not> prefix hdr (l @ 10 # g)" using l by (simp add: prefix_hdr_line)
  have ih: "search nl3 (l @ 10 # g) = Some (length l + length (concat (map (\<lambda>l. l @ [10]) mid)))"
    unfolding g_def using l(1) Cons.prems(2) by (intro Cons.IH) auto
  show ?case
    unfolding j nl3 using search_after_line[OF Cons.prems(1), of hdr "l @ 10 # g"] np ih
    by (simp add: nl3)
qed

section \<open>The header and the banner of the pipeline\<close>

lemma frontmatterBlock_headerOnly: "frontmatterBlock now m = headerOnly now m @ [10]"
  by (simp add: frontmatterBlock_def headerOnly_def)

lemma headerOnly_lines:
  "headerOnly now m @ rest
     = js ''---'' @ 10 # joinWith [10] (headerLines now m @ [js ''---'', rest])"
  by (simp add: headerOnly_def headerLines_def)

lemma length_headerOnly:
  "length (headerOnly now m) = 8 + length (concat (map (\<lambda>l. l @ [10]) (headerLines now m)))"
  by (simp add: headerOnly_def headerLines_def)

lemma headerLines_ok:
  assumes "singleLineMetadata now m"
  shows "\<forall>l \<in> set (headerLines now m). 10 \<notin> set l \<and> l \<noteq> js ''---''"
  using assms by (auto simp: headerLines_def singleLineMetadata_def singleLine_def)

lemma search_nl3_headerOnly:
  assumes "singleLineMetadata now m"
  shows "search nl3 (headerOnly now m @ rest) = Some (length (headerOnly now m) - 5)"
proof -
  have "search nl3 (js ''---'' @ 10 # joinWith [10] (headerLines now m @ [js ''---'', rest]))
          = Some (length (js ''---'')
                  + length (concat (map (\<lambda>l. l @ [10]) (headerLines now m))))"
    by (rule search_nl3_lines) (use headerLines_ok[OF assms] in auto)
  then show ?thesis unfolding headerOnly_lines length_headerOnly by simp
qed

lemma closedHeader_headerOnly:
  assumes "singleLineMetadata now m"
  shows "closedHeader (headerOnly now m)"
proof -
  have "startsWith (headerOnly now m) hdr"
    by (simp add: headerOnly_def startsWith_def hdr_def)
  moreover have "search nl3 (headerOnly now m) = Some (length (headerOnly now m) - 5)"
    using search_nl3_headerOnly[OF assms, of "[]"] by simp
  moreover have "5 \<le> length (headerOnly now m)" by (simp add: length_headerOnly)
  ultimately show ?thesis by (simp add: closedHeader_def)
qed

lemma processFileContent_fresh:
  assumes "singleLineMetadata now m" "optAddFrontmatter opts" "\<not> startsWith b hdr"
  shows "processFileContent now b m opts = headerOnly now m @ afterHeader m opts (10 # b)"
proof -
  have c: "closedHeader (headerOnly now m)" using assms(1) by (rule closedHeader_headerOnly)
  have 1: "addFrontmatterIfMissing now b m = headerOnly now m @ 10 # b"
    using assms(3) by (simp add: addFrontmatterIfMissing_def hdr_def frontmatterBlock_headerOnly)
  have "addFrontmatterIfMissing now (headerOnly now m @ 10 # b) m = headerOnly now m @ 10 # b"
    using c by (rule addFrontmatterIfMissing_closed)
  then have "processFileContent now b m opts
               = processFileContent now (headerOnly now m @ 10 # b) m opts"
    using assms(2) by (simp add: processFileContent_def 1)
  then show ?thesis using c by (simp add: processFileContent_closed)
qed

lemma bannerBlock_lines:
  "bannerBlock m @ rest =
     bannerTitle @ 10 #
       js ''> This file is synced from GitHub. Any local changes will be overwritten.'' @ 10 #
       (js ''> View source: ['' @ meta_owner m @ js ''/'' @ meta_repo m @ js ''](''
          @ meta_githubUrl m @ js '')'') @ 10 # 10 # rest"
  by (simp add: bannerBlock_def)

lemma length_bannerBlock_ge: "22 \<le> length (bannerBlock m)"
  by (simp add: bannerBlock_def bannerTitle_facts)

lemma search_nl2_bannerBlock:
  assumes "singleLine (meta_owner m)" "singleLine (meta_repo m)" "singleLine (meta_githubUrl m)"
  shows "search nl2 (bannerBlock m @ rest) = Some (length (bannerBlock m) - 2)"
proof -
  define l2 where
    "l2 = js ''> This file is synced from GitHub. Any local changes will be overwritten.''"
  define l3 where
    "l3 = js ''> View source: ['' @ meta_owner m @ js ''/'' @ meta_repo m @ js ''](''
          @ meta_githubUrl m @ js '')''"
  have b: "bannerBlock m @ rest = bannerTitle @ 10 # l2 @ 10 # l3 @ 10 # 10 # rest"
    unfolding bannerBlock_lines l2_def l3_def ..
  have "bannerBlock m = bannerTitle @ 10 # l2 @ 10 # l3 @ [10, 10]"
    by (simp add: bannerBlock_def l2_def l3_def)
  then have len: "length (bannerBlock m) = length bannerTitle + 1 + length l2 + 1 + length l3 + 2"
    by simp
  have n2: "10 \<notin> set l2" "l2 \<noteq> []" by (simp_all add: l2_def)
  have n3: "10 \<notin> set l3" "l3 \<noteq> []" using assms by (simp_all add: l3_def singleLine_def)
  have nl2: "nl2 = 10 # [10]" by (simp add: nl2_def)
  have p2: "\<not> prefix [10] (l2 @ x)" for x using n2 by (cases l2) auto
  have p3: "\<not> prefix [10] (l3 @ x)" for x using n3 by (cases l3) auto
  have s3: "search nl2 (l3 @ 10 # 10 # rest) = Some (length l3)"
    unfolding nl2 using search_after_line[OF n3(1), of "[10]" "10 # rest"] by simp
  have s2: "search nl2 (l2 @ 10 # l3 @ 10 # 10 # rest) = Some (length l2 + 1 + length l3)"
    unfolding nl2 using search_after_line[OF n2(1), of "[10]" "l3 @ 10 # 10 # rest"] p3 s3
    by (simp add: nl2)
  have "search nl2 (bannerTitle @ 10 # l2 @ 10 # l3 @ 10 # 10 # rest)
          = Some (length bannerTitle + 1 + (length l2 + 1 + length l3))"
    unfolding nl2
    using search_after_line[OF bannerTitle_facts(2), of "[10]" "l2 @ 10 # l3 @ 10 # 10 # rest"]
      p2 s2
    by (simp add: nl2)
  then show ?thesis unfolding b[symmetric] len by simp
qed

section \<open>Stripping the output of the pipeline\<close>

lemma indexOfFrom_nat:
  "k \<le> length s \<Longrightarrow>
   indexOfFrom s p (int k) = (case search p (drop k s) of None \<Rightarrow> -1 | Some i \<Rightarrow> int (k + i))"
  by (simp add: indexOfFrom_def Let_def min_def max_def)

lemma trimStart_Cons_ws: "isWhiteSpace c \<Longrightarrow> trimStart (c # s) = trimStart s"
  by (simp add: trimStart_def)

lemma trimStart_id: "s = [] \<or> \<not> isWhiteSpace (hd s) \<Longrightarrow> trimStart s = s"
  by (cases s) (auto simp: trimStart_def)

text \<open>
  Stripping a text made of a closed header that names \<open>github_repo:\<close>, the banner, an
  optional backlink and a blank line before the body.
\<close>

lemma strip_layout:
  assumes h: "closedHeader h" "includesStr (take (length h - 9) (drop 4 h)) (js ''github_repo:'')"
      "9 \<le> length h"
    and bn: "search nl2 (bannerBlock m @ l @ 10 # b) = Some (length (bannerBlock m) - 2)"
    and l: "l = [] \<or> backlinkPattern (l @ 10 # b) = Some (length l)"
  shows "stripSyncedContent (h @ bannerBlock m @ l @ 10 # b) = trimStart b"
proof -
  define c where "c = h @ bannerBlock m @ l @ 10 # b"
  define s1 where "s1 = bannerBlock m @ l @ 10 # b"
  have st: "startsWith c (js ''---\<newline>'')"
    using closedHeader_append(1)[OF h(1)] by (simp add: c_def hdr_def)
  have ix: "indexOf c (js ''\<newline>---\<newline>'') = int (length h - 5)"
    using closedHeader_append(2)[OF h(1), of "bannerBlock m @ l @ 10 # b"]
    by (simp add: c_def indexOf_def nl3_def)
  have ix1: "int (length h - 5) \<noteq> -1" by simp
  have fm: "substring c 4 (int (length h - 5)) = take (length h - 9) (drop 4 h)"
  proof -
    have "substring c (int 4) (int (length h - 5)) = take (length h - 5 - 4) (drop 4 c)"
      using h(3) by (intro substring_mid) simp
    moreover have "take (length h - 5 - 4) (drop 4 c) = take (length h - 9) (drop 4 h)"
      using h(3) by (simp add: c_def)
    ultimately show ?thesis by simp
  qed
  have dr: "substringFrom c (int (length h - 5) + 5) = s1"
  proof -
    have "int (length h - 5) + 5 = int (length h)" using h(3) by simp
    then show ?thesis by (simp add: substringFrom_drop c_def s1_def)
  qed
  have p1: "(if startsWith c (js ''---\<newline>'') then
               (if indexOf c (js ''\<newline>---\<newline>'') \<noteq> -1 then
                  (if includesStr (substring c 4 (indexOf c (js ''\<newline>---\<newline>'')))
                        (js ''github_repo:'')
                   then substringFrom c (indexOf c (js ''\<newline>---\<newline>'') + 5)
                   else c)
                else c)
             else c) = s1"
    using st h(2) by (simp only: ix fm dr ix1 if_True not_False_eq_True)
  have bs: "indexOf s1 bannerTitle = 0"
  proof -
    have "prefix bannerTitle s1" by (simp add: s1_def bannerBlock_def)
    then have "search bannerTitle s1 = Some 0" by (cases s1) (auto simp: bannerTitle_facts)
    then show ?thesis by (simp add: indexOf_def)
  qed
  have be: "indexOfFrom s1 (js ''\<newline>\<newline>'') 0 = int (length (bannerBlock m) - 2)"
    using bn indexOfFrom_nat[of 0 s1 nl2] by (simp add: s1_def nl2_def)
  have s2: "substring s1 0 0 @ substringFrom s1 (int (length (bannerBlock m) - 2) + 2) = l @ 10 # b"
  proof -
    have "int (length (bannerBlock m) - 2) + 2 = int (length (bannerBlock m))"
      using length_bannerBlock_ge[of m] by simp
    moreover have "substring s1 0 0 = []" using substring_take[of s1 0] by simp
    ultimately show ?thesis by (simp add: substringFrom_drop s1_def)
  qed
  have s3: "(case backlinkPattern (l @ 10 # b) of None \<Rightarrow> l @ 10 # b
             | Some n \<Rightarrow> drop n (l @ 10 # b)) = 10 # b"
    using l by (auto simp: backlinkPattern_not_arrow)
  have "stripSyncedContent c =
          trimStart (case backlinkPattern (l @ 10 # b) of None \<Rightarrow> l @ 10 # b
                     | Some n \<Rightarrow> drop n (l @ 10 # b))"
    unfolding stripSyncedContent_def Let_def p1 bs be
    unfolding s2 by simp
  also have "\<dots> = trimStart (10 # b)" by (simp only: s3)
  finally have "stripSyncedContent c = trimStart (10 # b)" .
  then show ?thesis by (simp add: c_def trimStart_Cons_ws isWhiteSpace_def)
qed

section \<open>Round trip\<close>

lemma afterHeader_fresh:
  assumes "singleLine (meta_owner m)" "singleLine (meta_repo m)" "singleLine (meta_githubUrl m)"
    and "optAddReadonlyBanner opts"
    and "\<forall>t. optBacklinkTarget opts = Some t \<longrightarrow> (\<forall>c \<in> set t. \<not> isLineTerminator c)"
    and "\<not> includesStr b bannerTitle"
  shows "\<exists>l. afterHeader m opts (10 # b) = bannerBlock m @ l @ 10 # b
             \<and> (l = [] \<or> backlinkPattern (l @ 10 # b) = Some (length l))"
proof -
  have "\<not> includesStr (10 # b) bannerTitle"
    using assms(6) by (simp add: includesStr_Cons_iff bannerTitle_facts)
  then have y: "bannerStep m (10 # b) = bannerBlock m @ 10 # b" by (simp add: bannerStep_def)
  show ?thesis
  proof (cases "\<exists>t. optBacklinkTarget opts = Some t \<and> optAddBacklinks opts \<and> t \<noteq> []")
    case True
    then obtain t where t: "optBacklinkTarget opts = Some t" "optAddBacklinks opts" "t \<noteq> []"
      by blast
    have lt: "\<forall>c \<in> set t. \<not> isLineTerminator c" using assms(5) t(1) by blast
    have a: "afterHeader m opts (10 # b) = backlinkStep t (bannerBlock m @ 10 # b)"
      using t assms(4) by (simp add: afterHeader_def y Let_def)
    have st: "startsWith (bannerBlock m @ 10 # b) bannerTitle"
      by (simp add: startsWith_def bannerBlock_def)
    have sn: "search nl2 (bannerBlock m @ 10 # b) = Some (length (bannerBlock m) - 2)"
      using assms(1-3) by (rule search_nl2_bannerBlock)
    have pos: "backlinkPos (bannerBlock m @ 10 # b) = length (bannerBlock m)"
      using st sn length_bannerBlock_ge[of m] by (simp add: backlinkPos_def)
    have "backlinkPattern (10 # b) = None" by (simp add: backlinkPattern_not_arrow)
    then have "backlinkStep t (bannerBlock m @ 10 # b)
                 = bannerBlock m @ backlinkLine t @ 10 # b"
      by (simp add: backlinkStep_def pos Let_def)
    with a backlinkPattern_backlinkLine[OF lt, of "10 # b"] show ?thesis by auto
  next
    case False
    then have "afterHeader m opts (10 # b) = bannerBlock m @ 10 # b"
      using assms(4) by (auto simp: afterHeader_def y Let_def split: option.splits)
    then show ?thesis by auto
  qed
qed

lemma headerOnly_names_repo:
  "includesStr (take (length (headerOnly now m) - 9) (drop 4 (headerOnly now m)))
     (js ''github_repo:'')"
  by (rule includesStr_prefix) (simp add: headerOnly_def)

lemma length_headerOnly_ge: "9 \<le> length (headerOnly now m)"
  by (simp add: headerOnly_def)

lemma strip_processFileContent:
  assumes "singleLineMetadata now m"
    and "optAddFrontmatter opts" "optAddReadonlyBanner opts"
    and "\<forall>t. optBacklinkTarget opts = Some t \<longrightarrow> (\<forall>c \<in> set t. \<not> isLineTerminator c)"
    and "\<not> startsWith b (js ''---\<newline>'')"
    and "\<not> includesStr b bannerTitle"
  shows "stripSyncedContent (processFileContent now b m opts) = trimStart b"
proof -
  have sl: "singleLine (meta_owner m)" "singleLine (meta_repo m)" "singleLine (meta_githubUrl m)"
    using assms(1) by (simp_all add: singleLineMetadata_def)
  have p: "processFileContent now b m opts = headerOnly now m @ afterHeader m opts (10 # b)"
    using assms(1,2,5) by (intro processFileContent_fresh) (simp_all add: hdr_def)
  obtain l where l: "afterHeader m opts (10 # b) = bannerBlock m @ l @ 10 # b"
      "l = [] \<or> backlinkPattern (l @ 10 # b) = Some (length l)"
    using afterHeader_fresh[OF sl assms(3,4,6)] by blast
  have "stripSyncedContent (headerOnly now m @ bannerBlock m @ l @ 10 # b) = trimStart b"
    using closedHeader_headerOnly[OF assms(1)] headerOnly_names_repo length_headerOnly_ge
      search_nl2_bannerBlock[OF sl] l(2)
    by (rule strip_layout)
  then show ?thesis by (simp add: p l(1))
qed

text \<open>
  Claim C2, as amended. For metadata whose fields are single lines, a backlink target
  without a line terminator, and a body that does not start with the header delimiter
  and does not contain the banner title, stripping the output of the pipeline (header
  and banner on, backlink on or off) gives the body without its leading white space:
  \<open>stripSyncedContent\<close> ends with \<open>trimStart\<close>, which removes the blank line the header
  step adds and any white space the body starts with. A body that is empty or starts
  with a code unit that is not white space is reproduced exactly.
\<close>

theorem stripSyncedContent_round_trip:
  assumes "singleLineMetadata now m"
    and "optAddFrontmatter opts" "optAddReadonlyBanner opts"
    and "\<forall>t. optBacklinkTarget opts = Some t \<longrightarrow> (\<forall>c \<in> set t. \<not> isLineTerminator c)"
    and "\<not> startsWith b (js ''---\<newline>'')"
    and "\<not> includesStr b bannerTitle"
  shows "stripSyncedContent (processFileContent now b m opts) = trimStart b
         \<and> ((b = [] \<or> \<not> isWhiteSpace (hd b))
              \<longrightarrow> stripSyncedContent (processFileContent now b m opts) = b)"
  using strip_processFileContent[OF assms] by (auto simp: trimStart_id)

lemma sample_singleLine: "singleLineMetadata (js ''2026-01-01T00:00:00.000Z'') sampleMetadata"
  by (simp add: singleLineMetadata_def singleLine_def sampleMetadata_def)

lemma sample_target:
  "\<forall>t. optBacklinkTarget sampleOptions = Some t \<longrightarrow> (\<forall>c \<in> set t. \<not> isLineTerminator c)"
  by (simp add: sampleOptions_def isLineTerminator_def)

theorem stripSyncedContent_round_trip_witness:
  "stripSyncedContent
     (processFileContent (js ''2026-01-01T00:00:00.000Z'') (js ''# Title'') sampleMetadata
        sampleOptions)
   = js ''# Title''"
proof -
  have "\<not> includesStr (js ''# Title'') bannerTitle"
    by (simp add: includesStr_def bannerTitle_def)
  then show ?thesis
    using stripSyncedContent_round_trip
      [OF sample_singleLine _ _ sample_target, of "js ''# Title''"]
    by (simp add: sampleOptions_def startsWith_def isWhiteSpace_def trimStart_def)
qed

text \<open>
  The claim as stated fails for a body that starts with white space: a body with a
  leading blank line and an indented first line has no header, no banner and no
  backlink, and comes back without the blank line and the indentation.
\<close>

theorem stripSyncedContent_trims_body:
  "stripSyncedContent
     (processFileContent (js ''2026-01-01T00:00:00.000Z'') (js ''\<newline>  # Title'')
        sampleMetadata sampleOptions)
   = js ''# Title''
   \<and> stripSyncedContent
     (processFileContent (js ''2026-01-01T00:00:00.000Z'') (js ''\<newline>  # Title'')
        sampleMetadata sampleOptions)
   \<noteq> js ''\<newline>  # Title''"
proof -
  have "\<not> includesStr (js ''\<newline>  # Title'') bannerTitle"
    by (simp add: includesStr_def bannerTitle_def)
  then have "stripSyncedContent
     (processFileContent (js ''2026-01-01T00:00:00.000Z'') (js ''\<newline>  # Title'')
        sampleMetadata sampleOptions) = trimStart (js ''\<newline>  # Title'')"
    using sample_singleLine _ _ sample_target
    by (rule strip_processFileContent[rotated 5])
       (simp_all add: sampleOptions_def startsWith_def)
  then show ?thesis by (simp add: trimStart_def isWhiteSpace_def)
qed

section \<open>Reading the header\<close>

lemma extractGitHubMetadata_alt:
  "extractGitHubMetadata c =
     (if startsWith c hdr then
        (case search nl3 c of
           None \<Rightarrow> None
         | Some i \<Rightarrow> parseHeader (substring c 4 (int i)))
      else None)"
  by (auto simp: extractGitHubMetadata_def parseHeader_def indexOf_def hdr_def nl3_def Let_def
           split: option.splits)

lemma extractGitHubMetadata_no_header:
  "\<not> startsWith c (js ''---\<newline>'') \<or> indexOf c (js ''\<newline>---\<newline>'') = -1
     \<Longrightarrow> extractGitHubMetadata c = None"
  by (auto simp: extractGitHubMetadata_def)

lemma substring_4_append:
  assumes "i + 5 \<le> length h"
  shows "substring (h @ x) 4 (int i) = substring h 4 (int i)"
proof -
  have "substring s 4 (int i) = take (max (min 4 (length s)) (min i (length s))
           - min (min 4 (length s)) (min i (length s)))
       (drop (min (min 4 (length s)) (min i (length s))) s)" for s :: jsstring
    using substring_nat[of s 4 i] by simp
  then show ?thesis using assms by (simp add: min_def max_def)
qed

lemma extractGitHubMetadata_closed:
  assumes "closedHeader h"
  shows "extractGitHubMetadata (h @ x) = parseHeader (substring h 4 (int (length h - 5)))"
proof -
  have "5 \<le> length h" using assms by (simp add: closedHeader_def)
  then have "substring (h @ x) 4 (int (length h - 5)) = substring h 4 (int (length h - 5))"
    by (intro substring_4_append) simp
  then show ?thesis
    using closedHeader_append(1,2)[OF assms, of x]
    by (simp del: of_nat_diff add: extractGitHubMetadata_alt)
qed

lemma headerKeys_closed:
  assumes "closedHeader h"
  shows "headerKeys (h @ x) = map lineKey (splitOn 10 (substring h 4 (int (length h - 5))))"
proof -
  have "5 \<le> length h" using assms by (simp add: closedHeader_def)
  then have "substring (h @ x) 4 (int (length h - 5)) = substring h 4 (int (length h - 5))"
    by (intro substring_4_append) simp
  then show ?thesis
    using closedHeader_append(1,2)[OF assms, of x]
    by (simp del: of_nat_diff add: headerKeys_def)
qed

section \<open>Missing keys\<close>

lemma metadataLine_other:
  assumes "lineKey line \<noteq> js ''github_repo''" 
  shows "fst (metadataLine st line) = fst st"
  using assms by (cases st) (auto simp: metadataLine_def lineKey_def Let_def)

lemma metadataLine_other2:
  assumes "lineKey line \<noteq> js ''github_path''"
  shows "fst (snd (metadataLine st line)) = fst (snd st)"
  using assms by (cases st) (auto simp: metadataLine_def lineKey_def Let_def)

lemma metadataLine_other3:
  assumes "lineKey line \<noteq> js ''github_url''"
  shows "snd (snd (metadataLine st line)) = snd (snd st)"
  using assms by (cases st) (auto simp: metadataLine_def lineKey_def Let_def)

lemma foldl_metadataLine_repo:
  "js ''github_repo'' \<notin> lineKey ` set ls \<Longrightarrow> fst (foldl metadataLine st ls) = fst st"
  by (induction ls arbitrary: st) (auto simp: metadataLine_other)

lemma foldl_metadataLine_path:
  "js ''github_path'' \<notin> lineKey ` set ls
     \<Longrightarrow> fst (snd (foldl metadataLine st ls)) = fst (snd st)"
  by (induction ls arbitrary: st) (auto simp: metadataLine_other2)

lemma foldl_metadataLine_url:
  "js ''github_url'' \<notin> lineKey ` set ls
     \<Longrightarrow> snd (snd (foldl metadataLine st ls)) = snd (snd st)"
  by (induction ls arbitrary: st) (auto simp: metadataLine_other3)

lemma parseHeader_missing_key:
  assumes "js ''github_repo'' \<notin> lineKey ` set (splitOn 10 fm)
           \<or> js ''github_path'' \<notin> lineKey ` set (splitOn 10 fm)
           \<or> js ''github_url'' \<notin> lineKey ` set (splitOn 10 fm)"
  shows "parseHeader fm = None"
proof -
  obtain a b c where f: "foldl metadataLine ([], [], []) (splitOn 10 fm) = (a, b, c)"
    by (cases "foldl metadataLine ([], [], []) (splitOn 10 fm)") auto
  have "a = [] \<or> b = [] \<or> c = []"
    using assms foldl_metadataLine_repo[of "splitOn 10 fm" "([], [], [])"]
      foldl_metadataLine_path[of "splitOn 10 fm" "([], [], [])"]
      foldl_metadataLine_url[of "splitOn 10 fm" "([], [], [])"]
    by (auto simp: f)
  then show ?thesis by (auto simp: parseHeader_def f)
qed

lemma extractGitHubMetadata_missing_key:
  assumes "js ''github_repo'' \<notin> set (headerKeys c) \<or> js ''github_path'' \<notin> set (headerKeys c)
           \<or> js ''github_url'' \<notin> set (headerKeys c)"
  shows "extractGitHubMetadata c = None"
proof (cases "startsWith c hdr")
  case False then show ?thesis by (simp add: extractGitHubMetadata_alt)
next
  case True
  show ?thesis
  proof (cases "search nl3 c")
    case None with True show ?thesis by (simp add: extractGitHubMetadata_alt)
  next
    case (Some i)
    with True assms have "parseHeader (substring c 4 (int i)) = None"
      by (intro parseHeader_missing_key) (simp add: headerKeys_def)
    with True Some show ?thesis by (simp add: extractGitHubMetadata_alt)
  qed
qed

section \<open>Content that brings its own header\<close>

lemma processFileContent_keeps_closed_header:
  assumes "startsWith c hdr" "search nl3 c = Some i"
  shows "extractGitHubMetadata (processFileContent now c m opts) = extractGitHubMetadata c"
    and "headerKeys (processFileContent now c m opts) = headerKeys c"
proof -
  define h where "h = take (i + 5) c"
  define x where "x = drop (i + 5) c"
  have c: "c = h @ x" by (simp add: h_def x_def)
  have ch: "closedHeader h" unfolding h_def using assms by (rule closedHeader_take)
  have p: "processFileContent now c m opts = h @ afterHeader m opts x"
    unfolding c using ch by (rule processFileContent_closed)
  show "extractGitHubMetadata (processFileContent now c m opts) = extractGitHubMetadata c"
    unfolding p using ch by (simp add: c extractGitHubMetadata_closed)
  show "headerKeys (processFileContent now c m opts) = headerKeys c"
    unfolding p using ch by (simp add: c headerKeys_closed)
qed

lemma search_nl3_line:
  assumes "10 \<notin> set l"
  shows "search nl3 (l @ 10 # rest) =
           (if prefix hdr rest then Some (length l)
            else map_option (\<lambda>i. length l + 1 + i) (search nl3 rest))"
proof -
  have eq: "nl3 = 10 # hdr" by (simp add: nl3_def hdr_def)
  show ?thesis unfolding eq using assms by (rule search_after_line)
qed

lemma search_nl3_line_None:
  assumes "10 \<notin> set l" "\<not> prefix hdr rest" "search nl3 rest = None"
  shows "search nl3 (l @ 10 # rest) = None"
  unfolding search_nl3_line[OF assms(1)] using assms(2,3) by simp

lemma search_nl3_open:
  assumes "search nl3 (hdr @ r) = None"
  shows "\<not> prefix hdr r" "search nl3 r = None"
proof -
  have e: "hdr @ r = js ''---'' @ 10 # r" by (simp add: hdr_def)
  have n: "10 \<notin> set (js ''---'')" by simp
  have "search nl3 (js ''---'' @ 10 # r) =
               (if prefix hdr r then Some (length (js ''---''))
                else map_option (\<lambda>i. length (js ''---'') + 1 + i) (search nl3 r))"
    by (rule search_nl3_line[OF n])
  then have "None = (if prefix hdr r then Some (length (js ''---''))
                else map_option (\<lambda>i. length (js ''---'') + 1 + i) (search nl3 r))"
    using assms by (simp only: e)
  then show "\<not> prefix hdr r" "search nl3 r = None" by (auto split: if_splits)
qed

lemma search_nl3_banner_open:
  assumes "search nl3 (hdr @ r) = None"
    and "singleLine (meta_owner m)" "singleLine (meta_repo m)" "singleLine (meta_githubUrl m)"
  shows "search nl3 (hdr @ bannerBlock m @ r) = None"
proof -
  define l2 where
    "l2 = js ''> This file is synced from GitHub. Any local changes will be overwritten.''"
  define l3 where
    "l3 = js ''> View source: ['' @ meta_owner m @ js ''/'' @ meta_repo m @ js ''](''
          @ meta_githubUrl m @ js '')''"
  have b: "hdr @ bannerBlock m @ r
             = js ''---'' @ 10 # bannerTitle @ 10 # l2 @ 10 # l3 @ 10 # [] @ 10 # r"
    unfolding bannerBlock_lines l2_def l3_def by (simp add: hdr_def)
  have n2: "10 \<notin> set l2" "l2 \<noteq> js ''---''" by (simp_all add: l2_def)
  have n3: "10 \<notin> set l3" "l3 \<noteq> js ''---''"
    using assms(2-4) by (simp_all add: l3_def singleLine_def)
  have nt: "10 \<notin> set bannerTitle" "bannerTitle \<noteq> js ''---''"
    by (simp_all add: bannerTitle_def)
  note op = search_nl3_open[OF assms(1)]
  have s5: "search nl3 ([] @ 10 # r) = None"
    by (rule search_nl3_line_None) (use op in simp_all)
  have s4: "search nl3 (l3 @ 10 # [] @ 10 # r) = None"
    by (rule search_nl3_line_None[OF n3(1) _ s5]) (simp add: hdr_def)
  have s3: "search nl3 (l2 @ 10 # l3 @ 10 # [] @ 10 # r) = None"
    by (rule search_nl3_line_None[OF n2(1) _ s4]) (use n3(2) in \<open>simp add: prefix_hdr_line[OF n3(1)]\<close>)
  have s2: "search nl3 (bannerTitle @ 10 # l2 @ 10 # l3 @ 10 # [] @ 10 # r) = None"
    by (rule search_nl3_line_None[OF nt(1) _ s3]) (use n2(2) in \<open>simp add: prefix_hdr_line[OF n2(1)]\<close>)
  have "search nl3 (js ''---'' @ 10 # bannerTitle @ 10 # l2 @ 10 # l3 @ 10 # [] @ 10 # r) = None"
    by (rule search_nl3_line_None[OF _ _ s2])
       (simp, use nt(2) in \<open>simp add: prefix_hdr_line[OF nt(1)]\<close>)
  then show ?thesis unfolding b .
qed

lemma processFileContent_open_header:
  assumes "startsWith c hdr" "search nl3 c = None"
    and "singleLine (meta_owner m)" "singleLine (meta_repo m)" "singleLine (meta_githubUrl m)"
  shows "extractGitHubMetadata (processFileContent now c m opts) = None"
    and "headerKeys (processFileContent now c m opts) = []"
proof -
  obtain r where c: "c = hdr @ r" using assms(1) by (auto simp: startsWith_def prefix_def)
  define c2 where "c2 = (if optAddReadonlyBanner opts then addReadonlyBanner c m else c)"
  have c2: "c2 = c \<or> c2 = hdr @ bannerBlock m @ r"
    using assms(1,2) by (auto simp: c2_def addReadonlyBanner_alt Let_def c)
  have s2: "startsWith c2 hdr" "search nl3 c2 = None"
    using c2 assms(1,2) search_nl3_banner_open[OF assms(2)[unfolded c] assms(3-5)]
    by (auto simp: c startsWith_def)
  have e2: "extractGitHubMetadata c2 = None" "headerKeys c2 = []"
    using s2 by (simp_all add: extractGitHubMetadata_alt headerKeys_def)
  have p: "processFileContent now c m opts =
             (case optBacklinkTarget opts of None \<Rightarrow> c2
              | Some t \<Rightarrow> if optAddBacklinks opts \<and> t \<noteq> [] then addBacklink c2 t else c2)"
  proof -
    have "addFrontmatterIfMissing now c m = c"
      using assms(1) by (simp add: addFrontmatterIfMissing_def hdr_def)
    then show ?thesis
      by (auto simp: processFileContent_def c2_def Let_def split: option.splits)
  qed
  have pos: "headerEnd c2 = 0" using s2 by (simp add: headerEnd_def)
  have "\<not> startsWith c2 bannerTitle"
    using s2(1) by (auto simp: startsWith_def prefix_def hdr_def bannerTitle_def)
  then have bp: "backlinkPos c2 = 0" by (simp add: backlinkPos_def)
  have "backlinkPattern c2 = None"
    using s2(1) by (intro backlinkPattern_not_arrow) (auto simp: startsWith_def prefix_def hdr_def)
  then have ab: "addBacklink c2 t = backlinkLine t @ c2" for t
    by (simp add: addBacklink_alt pos bp Let_def)
  have nb: "\<not> startsWith (backlinkLine t @ c2) hdr" for t
    by (simp add: startsWith_def backlinkLine_def hdr_def)
  show "extractGitHubMetadata (processFileContent now c m opts) = None"
    unfolding p using e2 nb by (auto simp: ab extractGitHubMetadata_alt split: option.splits)
  show "headerKeys (processFileContent now c m opts) = []"
    unfolding p using e2 nb by (auto simp: ab headerKeys_def split: option.splits)
qed

section \<open>Content that brings its own header: the claim\<close>

lemma shouldPrune_markdown:
  assumes "isMarkdownFile p" "p \<notin> syncedFiles"
  shows "shouldPrune st api syncedFiles p c \<longleftrightarrow> extractGitHubMetadata c \<noteq> None"
  using assms by (simp add: shouldPrune_def isMarkdownFile_def Let_def)

text \<open>
  Claim C10, as amended. For every content that begins with the header delimiter (and
  metadata whose owner, repository and URL are single lines), \<open>addFrontmatterIfMissing\<close>
  returns the content unchanged, and \<open>extractGitHubMetadata\<close> reads from the synced copy
  what it reads from the remote content itself: the header of the synced copy is the
  file's own. So when that header lacks one of the keys \<open>github_repo\<close>, \<open>github_path\<close> and
  \<open>github_url\<close>, the synced copy gives no metadata and pruning does not take the Markdown
  file for one of its own. When \<open>extractGitHubMetadata\<close> reads metadata from the remote
  content, it reads metadata from the synced copy, and pruning takes a Markdown copy that
  is not in the synced set for one of its own.
\<close>

theorem own_header_is_kept:
  assumes "startsWith content (js ''---\<newline>'')"
    and "singleLine (meta_owner m)" "singleLine (meta_repo m)" "singleLine (meta_githubUrl m)"
  shows "addFrontmatterIfMissing now content m = content
         \<and> extractGitHubMetadata (processFileContent now content m opts)
             = extractGitHubMetadata content
         \<and> ((js ''github_repo'' \<notin> set (headerKeys content)
               \<or> js ''github_path'' \<notin> set (headerKeys content)
               \<or> js ''github_url'' \<notin> set (headerKeys content))
              \<longrightarrow> extractGitHubMetadata (processFileContent now content m opts) = None
                  \<and> (isMarkdownFile p
                       \<longrightarrow> \<not> shouldPrune st api syncedFiles p
                                (processFileContent now content m opts)))
         \<and> (extractGitHubMetadata content \<noteq> None
              \<longrightarrow> extractGitHubMetadata (processFileContent now content m opts) \<noteq> None
                  \<and> (isMarkdownFile p \<and> p \<notin> syncedFiles
                       \<longrightarrow> shouldPrune st api syncedFiles p
                              (processFileContent now content m opts)))"
proof -
  have s: "startsWith content hdr" using assms(1) by (simp add: hdr_def)
  have 1: "addFrontmatterIfMissing now content m = content"
    using assms(1) by (simp add: addFrontmatterIfMissing_def)
  have 2: "extractGitHubMetadata (processFileContent now content m opts)
             = extractGitHubMetadata content"
  proof (cases "search nl3 content")
    case None
    then have "extractGitHubMetadata content = None"
      using s by (simp add: extractGitHubMetadata_alt)
    then show ?thesis
      using processFileContent_open_header(1)[OF s None assms(2-4)] by simp
  next
    case (Some i)
    with s show ?thesis by (rule processFileContent_keeps_closed_header(1))
  qed
  have 3: "extractGitHubMetadata (processFileContent now content m opts) = None
           \<and> (isMarkdownFile p
                \<longrightarrow> \<not> shouldPrune st api syncedFiles p (processFileContent now content m opts))"
    if "js ''github_repo'' \<notin> set (headerKeys content)
               \<or> js ''github_path'' \<notin> set (headerKeys content)
               \<or> js ''github_url'' \<notin> set (headerKeys content)"
  proof -
    have "extractGitHubMetadata content = None"
      using that by (rule extractGitHubMetadata_missing_key)
    then have "extractGitHubMetadata (processFileContent now content m opts) = None"
      by (simp add: 2)
    then show ?thesis by (simp add: shouldPrune_def isMarkdownFile_def Let_def)
  qed
  have 4: "extractGitHubMetadata (processFileContent now content m opts) \<noteq> None
           \<and> (isMarkdownFile p \<and> p \<notin> syncedFiles
                \<longrightarrow> shouldPrune st api syncedFiles p (processFileContent now content m opts))"
    if "extractGitHubMetadata content \<noteq> None"
  proof -
    have e: "extractGitHubMetadata (processFileContent now content m opts) \<noteq> None"
      using that by (simp add: 2)
    then show ?thesis
      using shouldPrune_markdown[of p syncedFiles st api "processFileContent now content m opts"]
      by simp
  qed
  show ?thesis using 1 2 3 4 by blast
qed

lemma copiedContent_search: "search nl3 copiedContent = Some 102"
  by (simp add: copiedContent_def nl3_def)

lemma trim_eval:
  "trim s = rev (dropWhile isWhiteSpace (rev (dropWhile isWhiteSpace s)))"
  by (simp add: trim_def trimEnd_def trimStart_def)

lemma copiedContent_header:
  "substring copiedContent 4 (int 102) =
     js ''github_repo: octo/notes\<newline>github_path: a.md\<newline>github_url: https://github.com/octo/notes/blob/main/a.md''"
  using substring_mid[of 4 102 copiedContent] by (simp add: copiedContent_def)

lemma copiedContent_parse:
  "parseHeader (js ''github_repo: octo/notes\<newline>github_path: a.md\<newline>github_url: https://github.com/octo/notes/blob/main/a.md'') =
     Some \<lparr>meta_owner = js ''octo'', meta_repo = js ''notes'', meta_branch = js ''main'',
           meta_path = js ''a.md'',
           meta_githubUrl = js ''https://github.com/octo/notes/blob/main/a.md''\<rparr>"
  by (simp add: parseHeader_def metadataLine_def trim_eval isWhiteSpace_def Let_def)

lemma copiedContent_metadata:
  "extractGitHubMetadata copiedContent =
     Some \<lparr>meta_owner = js ''octo'', meta_repo = js ''notes'', meta_branch = js ''main'',
           meta_path = js ''a.md'',
           meta_githubUrl = js ''https://github.com/octo/notes/blob/main/a.md''\<rparr>"
proof -
  have "startsWith copiedContent hdr" by (simp add: copiedContent_def startsWith_def hdr_def)
  then show ?thesis
    by (simp only: extractGitHubMetadata_alt copiedContent_search if_True option.case
          copiedContent_header copiedContent_parse)
qed

text \<open>
  The claim as stated fails for a remote file whose own header has the three keys, for
  example a file that was copied from a synced vault into a repository: its synced copy
  gives metadata, and pruning takes it for a file of its own.
\<close>

theorem copied_header_is_read:
  "startsWith copiedContent (js ''---\<newline>'')
   \<and> extractGitHubMetadata
       (processFileContent (js ''2026-01-01T00:00:00.000Z'') copiedContent sampleMetadata
          sampleOptions)
     = Some \<lparr>meta_owner = js ''octo'', meta_repo = js ''notes'', meta_branch = js ''main'',
             meta_path = js ''a.md'',
             meta_githubUrl = js ''https://github.com/octo/notes/blob/main/a.md''\<rparr>
   \<and> shouldPrune sampleSettings sampleApi {} (js ''Projects/octo/site/a.md'')
       (processFileContent (js ''2026-01-01T00:00:00.000Z'') copiedContent sampleMetadata
          sampleOptions)"
proof -
  define out where "out = processFileContent (js ''2026-01-01T00:00:00.000Z'') copiedContent
                            sampleMetadata sampleOptions"
  have s: "startsWith copiedContent hdr"
    by (simp add: copiedContent_def startsWith_def hdr_def)
  have "extractGitHubMetadata out = extractGitHubMetadata copiedContent"
    unfolding out_def using s copiedContent_search
    by (rule processFileContent_keeps_closed_header(1))
  then have e: "extractGitHubMetadata out =
     Some \<lparr>meta_owner = js ''octo'', meta_repo = js ''notes'', meta_branch = js ''main'',
           meta_path = js ''a.md'',
           meta_githubUrl = js ''https://github.com/octo/notes/blob/main/a.md''\<rparr>"
    by (simp only: copiedContent_metadata)
  have md: "isMarkdownFile (js ''Projects/octo/site/a.md'')"
    by (simp add: isMarkdownFile_def endsWith_def suffix_def)
  have "extractGitHubMetadata out \<noteq> None" unfolding e by simp
  then have p: "shouldPrune sampleSettings sampleApi {} (js ''Projects/octo/site/a.md'') out"
    using shouldPrune_markdown[OF md, of "{}" sampleSettings sampleApi out] by simp
  have s': "startsWith copiedContent (js ''---\<newline>'')" using s by (simp add: hdr_def)
  show ?thesis using s' e p unfolding out_def by (intro conjI)
qed

theorem own_header_is_kept_witness:
  "extractGitHubMetadata
     (processFileContent (js ''2026-01-01T00:00:00.000Z'')
        (js ''---\<newline>title: Guide\<newline>---\<newline>text'') sampleMetadata sampleOptions)
   = None
   \<and> shouldPrune sampleSettings sampleApi {} (js ''Projects/octo/site/a.md'')
       (processFileContent (js ''2026-01-01T00:00:00.000Z'') copiedContent sampleMetadata
          sampleOptions)"
proof -
  have s: "search nl3 (js ''---\<newline>title: Guide\<newline>---\<newline>text'') = Some 16"
    by (simp add: nl3_def)
  have "substring (js ''---\<newline>title: Guide\<newline>---\<newline>text'') 4 (int 16)
          = js ''title: Guide''"
    using substring_mid[of 4 16 "js ''---\<newline>title: Guide\<newline>---\<newline>text''"] by simp
  then have "headerKeys (js ''---\<newline>title: Guide\<newline>---\<newline>text'') = [js ''title'']"
    unfolding headerKeys_def s
    by (simp add: startsWith_def hdr_def lineKey_def trim_eval isWhiteSpace_def)
  then have k: "js ''github_repo'' \<notin> set (headerKeys (js ''---\<newline>title: Guide\<newline>---\<newline>text''))"
    by simp
  have a: "startsWith (js ''---\<newline>title: Guide\<newline>---\<newline>text'') (js ''---\<newline>'')"
    by (simp add: startsWith_def)
  have b: "singleLine (meta_owner sampleMetadata)" "singleLine (meta_repo sampleMetadata)"
    "singleLine (meta_githubUrl sampleMetadata)"
    by (simp_all add: singleLine_def sampleMetadata_def)
  have 1: "extractGitHubMetadata
     (processFileContent (js ''2026-01-01T00:00:00.000Z'')
        (js ''---\<newline>title: Guide\<newline>---\<newline>text'') sampleMetadata sampleOptions)
   = None"
    using own_header_is_kept
      [OF a b, of "js ''2026-01-01T00:00:00.000Z''" sampleOptions "[]" sampleSettings sampleApi
         "{}"] k
    by blast
  have a': "startsWith copiedContent (js ''---\<newline>'')"
    by (simp add: copiedContent_def startsWith_def)
  have md: "isMarkdownFile (js ''Projects/octo/site/a.md'')"
    by (simp add: isMarkdownFile_def endsWith_def suffix_def)
  have e: "extractGitHubMetadata copiedContent \<noteq> None"
    by (simp only: copiedContent_metadata) simp
  have 2: "shouldPrune sampleSettings sampleApi {} (js ''Projects/octo/site/a.md'')
       (processFileContent (js ''2026-01-01T00:00:00.000Z'') copiedContent sampleMetadata
          sampleOptions)"
    using own_header_is_kept
      [OF a' b, of "js ''2026-01-01T00:00:00.000Z''" sampleOptions
         "js ''Projects/octo/site/a.md''" sampleSettings sampleApi "{}"] e md
    by blast
  show ?thesis using 1 2 by (rule conjI)
qed

section \<open>Reading a header the pipeline wrote\<close>

lemma trim_Cons_ws: "isWhiteSpace c \<Longrightarrow> trim (c # s) = trim s"
  by (simp add: trim_def trimStart_def)

lemma trim_nonblank:
  assumes "\<exists>c \<in> set s. \<not> isWhiteSpace c"
  shows "trim s \<noteq> []"
proof -
  have 1: "dropWhile isWhiteSpace s \<noteq> []" using assms by (auto simp: dropWhile_eq_Nil_conv)
  have "\<exists>c \<in> set (dropWhile isWhiteSpace s). \<not> isWhiteSpace c"
    using 1 hd_dropWhile[OF 1] by (metis hd_in_set)
  then have "dropWhile isWhiteSpace (rev (dropWhile isWhiteSpace s)) \<noteq> []"
    by (auto simp: dropWhile_eq_Nil_conv)
  then show ?thesis by (simp add: trim_def trimStart_def trimEnd_def)
qed

lemma trim_clean:
  assumes "s \<noteq> []" "\<not> isWhiteSpace (hd s)" "\<not> isWhiteSpace (last s)"
  shows "trim s = s"
proof -
  have 1: "dropWhile isWhiteSpace s = s" using assms(1,2) by (cases s) auto
  have "dropWhile isWhiteSpace (rev s) = rev s"
    using assms(1,3) by (cases "rev s") (auto simp: last_rev[symmetric] hd_rev)
  then show ?thesis by (simp add: trim_def trimStart_def trimEnd_def 1)
qed

lemma metadataLine_key:
  assumes "58 \<notin> set key"
  shows "metadataLine (a, b, c) (key @ 58 # v) =
           (if trim key = js ''github_repo'' then (trim v, b, c)
            else if trim key = js ''github_path'' then (a, trim v, c)
            else if trim key = js ''github_url'' then (a, b, trim v)
            else (a, b, c))"
proof -
  have "splitOn 58 (key @ 58 # v) = key # splitOn 58 v"
    using assms by (simp add: splitOn_append_sep splitOn_no_sep)
  moreover have "joinWith (js '':'') (splitOn 58 v) = v"
    using joinWith_splitOn[of 58 v] by simp
  ultimately show ?thesis by (simp add: metadataLine_def Let_def)
qed

lemma foldl_headerLines:
  "foldl metadataLine ([], [], []) (headerLines now m) =
     (trim (meta_owner m @ 47 # meta_repo m), trim (meta_path m), trim (meta_githubUrl m))"
proof -
  have k: "js ''github_repo: '' @ x = js ''github_repo'' @ 58 # 32 # x"
      "js ''github_path: '' @ x = js ''github_path'' @ 58 # 32 # x"
      "js ''github_url: '' @ x = js ''github_url'' @ 58 # 32 # x"
      "js ''synced_at: '' @ x = js ''synced_at'' @ 58 # 32 # x" for x
    by simp_all
  have r: "js ''readonly: true'' = js ''readonly'' @ 58 # js '' true''" by simp
  have w: "isWhiteSpace 32" by (simp add: isWhiteSpace_def)
  have t: "trim (js ''github_repo'') = js ''github_repo''"
      "trim (js ''github_path'') = js ''github_path''"
      "trim (js ''github_url'') = js ''github_url''"
      "trim (js ''synced_at'') = js ''synced_at''"
      "trim (js ''readonly'') = js ''readonly''"
    by (simp_all add: trim_eval isWhiteSpace_def)
  have n: "58 \<notin> set (js ''github_repo'')" "58 \<notin> set (js ''github_path'')"
      "58 \<notin> set (js ''github_url'')" "58 \<notin> set (js ''synced_at'')"
      "58 \<notin> set (js ''readonly'')"
    by simp_all
  have 1: "metadataLine ([], [], []) (js ''github_repo: '' @ meta_owner m @ js ''/'' @ meta_repo m)
             = (trim (meta_owner m @ 47 # meta_repo m), [], [])"
    unfolding k metadataLine_key[OF n(1)] t by (simp add: trim_Cons_ws[OF w])
  have 2: "metadataLine (a, [], []) (js ''github_path: '' @ meta_path m)
             = (a, trim (meta_path m), [])" for a
    unfolding k metadataLine_key[OF n(2)] t by (simp add: trim_Cons_ws[OF w])
  have 3: "metadataLine (a, b, []) (js ''github_url: '' @ meta_githubUrl m)
             = (a, b, trim (meta_githubUrl m))" for a b
    unfolding k metadataLine_key[OF n(3)] t by (simp add: trim_Cons_ws[OF w])
  have 4: "metadataLine (a, b, c) (js ''synced_at: '' @ now) = (a, b, c)" for a b c
    unfolding k metadataLine_key[OF n(4)] t by simp
  have 5: "metadataLine (a, b, c) (js ''readonly: true'') = (a, b, c)" for a b c
    unfolding r metadataLine_key[OF n(5)] t by simp
  show ?thesis unfolding headerLines_def by (simp only: foldl.simps 1 2 3 4 5)
qed

lemma headerOnly_between:
  "substring (headerOnly now m) 4 (int (length (headerOnly now m) - 5))
     = joinWith [10] (headerLines now m)"
proof -
  have h: "headerOnly now m = hdr @ joinWith [10] (headerLines now m) @ nl3"
    by (simp add: headerOnly_def headerLines_def hdr_def nl3_def)
  have "substring (headerOnly now m) (int 4) (int (length (headerOnly now m) - 5))
          = take (length (headerOnly now m) - 5 - 4) (drop 4 (headerOnly now m))"
    by (rule substring_mid) (simp add: h)
  also have "\<dots> = joinWith [10] (headerLines now m)" by (simp add: h)
  finally show ?thesis by simp
qed

lemma extract_written_header:
  assumes "wellFormedMetadata now m"
  shows "\<exists>md. extractGitHubMetadata (frontmatterBlock now m @ body) = Some md
              \<and> meta_owner md = meta_owner m \<and> meta_repo md = meta_repo m"
proof -
  have sl: "singleLineMetadata now m" using assms by (simp add: wellFormedMetadata_def)
  have names: "meta_owner m \<noteq> []" "meta_repo m \<noteq> []"
      "\<forall>c \<in> set (meta_owner m). \<not> isWhiteSpace c \<and> c \<noteq> 47"
      "\<forall>c \<in> set (meta_repo m). \<not> isWhiteSpace c \<and> c \<noteq> 47"
    using assms by (auto simp: wellFormedMetadata_def)
  have e: "extractGitHubMetadata (frontmatterBlock now m @ body)
             = parseHeader (joinWith [10] (headerLines now m))"
    using extractGitHubMetadata_closed[OF closedHeader_headerOnly[OF sl], of "10 # body"]
    by (simp add: frontmatterBlock_headerOnly headerOnly_between)
  have ls: "splitOn 10 (joinWith [10] (headerLines now m)) = headerLines now m"
    using headerLines_ok[OF sl] by (intro splitOn_joinWith) (auto simp: headerLines_def)
  have tr: "trim (meta_owner m @ 47 # meta_repo m) = meta_owner m @ 47 # meta_repo m"
    using names by (intro trim_clean) (auto simp: hd_append)
  have sp: "splitOn 47 (meta_owner m @ 47 # meta_repo m) = [meta_owner m, meta_repo m]"
  proof -
    have "47 \<notin> set (meta_owner m)" "47 \<notin> set (meta_repo m)" using names(3,4) by auto
    then show ?thesis by (simp add: splitOn_append_sep splitOn_no_sep)
  qed
  have nb: "trim (meta_path m) \<noteq> []" "trim (meta_githubUrl m) \<noteq> []"
    using assms by (auto simp: wellFormedMetadata_def intro!: trim_nonblank)
  show ?thesis
    unfolding e parseHeader_def ls foldl_headerLines tr
    using nb names(1,2) by (simp add: sp)
qed

section \<open>Pruning a folder\<close>

lemma prune_files:
  "filesUnder fp (fst (pruneFolder st api sy fp cs))
     = filter (\<lambda>(p, c). \<not> shouldPrune st api sy p c) (filesUnder fp cs)"
  "filesUnder fp (fst (pruneChildren st api sy fp cs))
     = filter (\<lambda>(p, c). \<not> shouldPrune st api sy p c) (filesUnder fp cs)"
  "length (filesToDelete st api sy fp cs) \<le> length cs"
proof (induction st api sy fp cs and st api sy fp cs and st api sy fp cs
       rule: pruneFolder_pruneChildren_filesToDelete.induct)
  case (1 st api sy fp cs)
  then show ?case by (simp add: split_beta)
next
  case (2 st api sy fp)
  then show ?case by simp
next
  case (3 st api sy fp n content cs)
  then show ?case by auto
next
  case (4 st api sy fp n sub cs)
  then show ?case by simp
next
  case (5 st api sy fp)
  then show ?case by simp
next
  case (6 st api sy fp n content cs)
  then show ?case by (simp add: split_beta)
next
  case (7 st api sy fp n sub cs)
  obtain sub' d1 where a: "pruneFolder st api sy (childPath fp n) sub = (sub', d1)"
    by (cases "pruneFolder st api sy (childPath fp n) sub") auto
  obtain left d2 where b: "pruneChildren st api sy fp cs = (left, d2)"
    by (cases "pruneChildren st api sy fp cs") auto
  have 1: "filesUnder (childPath fp n) sub'
             = filter (\<lambda>(p, c). \<not> shouldPrune st api sy p c) (filesUnder (childPath fp n) sub)"
    using "7.IH"(1) a by simp
  have 2: "filesUnder fp left = filter (\<lambda>(p, c). \<not> shouldPrune st api sy p c) (filesUnder fp cs)"
    using "7.IH"(2)[OF a[symmetric]] b by simp
  show ?case
  proof (cases "sub' = []")
    case True
    with 1 have "filter (\<lambda>(p, c). \<not> shouldPrune st api sy p c) (filesUnder (childPath fp n) sub) = []"
      by simp
    with True 2 show ?thesis by (simp add: a b del: pruneFolder.simps(1))
  next
    case False
    with 1 2 show ?thesis by (simp add: a b del: pruneFolder.simps(1))
  qed
qed

lemma prune_deleted:
  "(p, c) \<in> set (filesUnder fp cs) \<Longrightarrow> shouldPrune st api sy p c
     \<Longrightarrow> p \<in> set (snd (pruneFolder st api sy fp cs))"
  "(p, c) \<in> set (filesUnder fp cs) \<Longrightarrow> shouldPrune st api sy p c
     \<Longrightarrow> p \<in> set (snd (pruneChildren st api sy fp cs)) \<union> set (filesToDelete st api sy fp cs)"
  "length (filesToDelete st api sy fp cs) \<le> length cs"
proof (induction st api sy fp cs and st api sy fp cs and st api sy fp cs
       rule: pruneFolder_pruneChildren_filesToDelete.induct)
  case (1 st api sy fp cs)
  then show ?case by (auto simp: split_beta)
next
  case (2 st api sy fp)
  then show ?case by simp
next
  case (3 st api sy fp n content cs)
  then show ?case by auto
next
  case (4 st api sy fp n sub cs)
  then show ?case by simp
next
  case (5 st api sy fp)
  then show ?case by simp
next
  case (6 st api sy fp n content cs)
  then show ?case by (auto simp: split_beta)
next
  case (7 st api sy fp n sub cs)
  obtain sub' d1 where a: "pruneFolder st api sy (childPath fp n) sub = (sub', d1)"
    by (cases "pruneFolder st api sy (childPath fp n) sub") auto
  obtain left d2 where b: "pruneChildren st api sy fp cs = (left, d2)"
    by (cases "pruneChildren st api sy fp cs") auto
  from "7.prems"(1) consider
    (below) "(p, c) \<in> set (filesUnder (childPath fp n) sub)"
    | (rest) "(p, c) \<in> set (filesUnder fp cs)"
    by auto
  then show ?case
  proof cases
    case below
    then have "p \<in> set d1" using "7.IH"(1) "7.prems"(2) a by simp
    then show ?thesis by (simp add: a b del: pruneFolder.simps(1))
  next
    case rest
    then have "p \<in> set d2 \<union> set (filesToDelete st api sy fp cs)"
      using "7.IH"(2)[OF a[symmetric]] "7.prems"(2) b by simp
    then show ?thesis by (auto simp: a b simp del: pruneFolder.simps(1))
  qed
qed

section \<open>Paths in the vault\<close>

lemma splitOn_sep_free: "s \<in> set (splitOn c x) \<Longrightarrow> c \<notin> set s"
proof (induction x arbitrary: s)
  case Nil then show ?case by simp
next
  case (Cons a x)
  obtain p ps where sp: "splitOn c x = p # ps" by (cases "splitOn c x") auto
  show ?case
  proof (cases "a = c")
    case True with Cons show ?thesis by auto
  next
    case False
    with Cons.prems sp have "s = a # p \<or> s \<in> set ps" by auto
    then show ?thesis using Cons.IH[of p] Cons.IH[of s] sp False by auto
  qed
qed

lemma splitOn_inject: "splitOn c x = splitOn c y \<Longrightarrow> x = y"
  by (metis joinWith_splitOn)

lemma findChild_SomeD: "findChild n cs = Some c \<Longrightarrow> nodeName c = n \<and> c \<in> set cs"
  by (induction cs) (auto split: if_splits)

lemma findChild_append: "findChild n cs = Some c \<Longrightarrow> findChild n (cs @ ds) = Some c"
  by (induction cs) auto

lemma findChild_replaceChild_other:
  "m \<noteq> n \<Longrightarrow> nodeName new = n \<Longrightarrow> findChild m (replaceChild n new cs) = findChild m cs"
  by (induction cs) auto

lemma findChild_replaceChild_same:
  "findChild n cs \<noteq> None \<Longrightarrow> nodeName new = n \<Longrightarrow> findChild n (replaceChild n new cs) = Some new"
  by (induction cs) auto

lemma lookupPath_Cons:
  "lookupPath cs (n # ns) =
     (if ns = [] then findChild n cs
      else (case findChild n cs of Some (TFolder _ sub) \<Rightarrow> lookupPath sub ns | _ \<Rightarrow> None))"
  by (auto split: option.splits vnode.splits)

lemma lookupPath_append:
  "xs \<noteq> [] \<Longrightarrow> ys \<noteq> [] \<Longrightarrow>
   lookupPath cs (xs @ ys) =
     (case lookupPath cs xs of Some (TFolder _ sub) \<Rightarrow> lookupPath sub ys | _ \<Rightarrow> None)"
proof (induction xs arbitrary: cs)
  case Nil then show ?case by simp
next
  case (Cons x xs)
  show ?case
  proof (cases "xs = []")
    case True
    with Cons.prems show ?thesis by (auto split: option.splits vnode.splits)
  next
    case False
    with Cons show ?thesis by (auto split: option.splits vnode.splits)
  qed
qed

lemma lookupPath_prefix_folder:
  assumes "lookupPath cs (xs @ ys) = Some node" "xs \<noteq> []" "ys \<noteq> []"
  shows "\<exists>n sub. lookupPath cs xs = Some (TFolder n sub) \<and> lookupPath sub ys = Some node"
  using assms by (auto simp: lookupPath_append split: option.splits vnode.splits)

section \<open>Writes leave the other paths alone\<close>

text \<open>Adding a node keeps every file that can be looked up.\<close>

lemma alterPath_addNode_frame:
  assumes "alterPath (addNode new n) ns cs = Some r" "lookupPath cs ps = Some (TFile k d)"
  shows "lookupPath r ps = Some (TFile k d)"
  using assms
proof (induction ns arbitrary: cs r ps)
  case Nil
  then have r: "r = cs @ [new]" by (auto simp: addNode_def split: if_splits)
  from Nil.prems(2) show ?case
    by (cases ps) (auto simp: r findChild_append split: option.splits vnode.splits if_splits)
next
  case (Cons a ns)
  from Cons.prems(1) obtain m sub sub' where
    f: "findChild a cs = Some (TFolder m sub)" and
    a: "alterPath (addNode new n) ns sub = Some sub'" and
    r: "r = replaceChild a (TFolder a sub') cs"
    by (auto split: option.splits vnode.splits)
  show ?case
  proof (cases ps)
    case Nil with Cons.prems(2) show ?thesis by simp
  next
    case (Cons p ps')
    show ?thesis
    proof (cases "p = a")
      case False
      then have "findChild p r = findChild p cs"
        unfolding r by (intro findChild_replaceChild_other) auto
      with Cons.prems(2) Cons show ?thesis by (simp add: lookupPath_Cons)
    next
      case True
      have fr: "findChild a r = Some (TFolder a sub')"
        unfolding r using f by (intro findChild_replaceChild_same) auto
      have ne: "ps' \<noteq> []" using True Cons Cons.prems(2) f by auto
      with True Cons Cons.prems(2) f have "lookupPath sub ps' = Some (TFile k d)"
        by (simp add: lookupPath_Cons)
      then have "lookupPath sub' ps' = Some (TFile k d)" using Cons.IH[OF a] by simp
      with ne True Cons fr show ?thesis by (simp add: lookupPath_Cons)
    qed
  qed
qed

text \<open>Setting the content of a file keeps every other file.\<close>

lemma alterPath_setContent_frame:
  assumes "alterPath (setContent c n) ns cs = Some r" "lookupPath cs ps = Some (TFile k d)"
    and "ps \<noteq> ns @ [n]"
  shows "lookupPath r ps = Some (TFile k d)"
  using assms
proof (induction ns arbitrary: cs r ps)
  case Nil
  from Nil.prems(1) obtain m e where f: "findChild n cs = Some (TFile m e)"
    and r: "r = replaceChild n (TFile n c) cs"
    by (auto simp: setContent_def split: option.splits vnode.splits)
  show ?case
  proof (cases ps)
    case Nil with Nil.prems(2) show ?thesis by simp
  next
    case (Cons p ps')
    show ?thesis
    proof (cases "p = n")
      case False
      then have "findChild p r = findChild p cs"
        unfolding r by (intro findChild_replaceChild_other) auto
      with Nil.prems(2) Cons show ?thesis by (simp add: lookupPath_Cons)
    next
      case True
      with Cons Nil.prems(3) have "ps' \<noteq> []" by auto
      with True Cons Nil.prems(2) f show ?thesis by (simp add: lookupPath_Cons)
    qed
  qed
next
  case (Cons a ns)
  from Cons.prems(1) obtain m sub sub' where
    f: "findChild a cs = Some (TFolder m sub)" and
    a: "alterPath (setContent c n) ns sub = Some sub'" and
    r: "r = replaceChild a (TFolder a sub') cs"
    by (auto split: option.splits vnode.splits)
  show ?case
  proof (cases ps)
    case Nil with Cons.prems(2) show ?thesis by simp
  next
    case (Cons p ps')
    show ?thesis
    proof (cases "p = a")
      case False
      then have "findChild p r = findChild p cs"
        unfolding r by (intro findChild_replaceChild_other) auto
      with Cons.prems(2) Cons show ?thesis by (simp add: lookupPath_Cons)
    next
      case True
      have fr: "findChild a r = Some (TFolder a sub')"
        unfolding r using f by (intro findChild_replaceChild_same) auto
      have ne: "ps' \<noteq> []" using True Cons Cons.prems(2) f by auto
      with True Cons Cons.prems(2) f have l: "lookupPath sub ps' = Some (TFile k d)"
        by (simp add: lookupPath_Cons)
      have "ps' \<noteq> ns @ [n]" using Cons.prems(3) True Cons by simp
      with l have "lookupPath sub' ps' = Some (TFile k d)" using Cons.IH[OF a] by simp
      with ne True Cons fr show ?thesis by (simp add: lookupPath_Cons)
    qed
  qed
qed

text \<open>Setting the content of a file that is there succeeds and shows in the lookup.\<close>

lemma alterPath_setContent_works:
  assumes "lookupPath cs (ns @ [n]) = Some (TFile k d)"
  shows "\<exists>r. alterPath (setContent c n) ns cs = Some r
             \<and> lookupPath r (ns @ [n]) = Some (TFile n c)"
  using assms
proof (induction ns arbitrary: cs)
  case Nil
  then have f: "findChild n cs = Some (TFile k d)" by (auto split: option.splits)
  then have "findChild n (replaceChild n (TFile n c) cs) = Some (TFile n c)"
    by (intro findChild_replaceChild_same) auto
  with f show ?case by (simp add: setContent_def lookupPath_Cons)
next
  case (Cons a ns)
  from Cons.prems obtain m sub where f: "findChild a cs = Some (TFolder m sub)"
    and l: "lookupPath sub (ns @ [n]) = Some (TFile k d)"
    by (auto simp: lookupPath_Cons split: option.splits vnode.splits)
  from Cons.IH[OF l] obtain r' where r': "alterPath (setContent c n) ns sub = Some r'"
    "lookupPath r' (ns @ [n]) = Some (TFile n c)" by blast
  have "findChild a (replaceChild a (TFolder a r') cs) = Some (TFolder a r')"
    using f by (intro findChild_replaceChild_same) auto
  with f r' show ?case by (simp add: lookupPath_Cons)
qed

section \<open>The folders of a path\<close>

lemma joinWith_snoc:
  "joinWith sep (xs @ [x]) = (if xs = [] then x else joinWith sep xs @ sep @ x)"
  by (induction xs) (auto simp: joinWith_Cons)

lemma joinWith_eq_Nil:
  "\<forall>s \<in> set xs. s \<noteq> [] \<Longrightarrow> joinWith sep xs = [] \<longleftrightarrow> xs = []"
  by (cases xs) (auto simp: joinWith_Cons)

lemma vaultWrite_InrD:
  assumes "vaultWrite v p f op = Inr v'"
  shows "alterPath (f (last (splitOn 47 p))) (butlast (splitOn 47 p)) (root v) = Some (root v')"
    and "journal v' = journal v @ [op]"
  using assms by (auto simp: vaultWrite_def Let_def split: option.splits)

lemma ensureFolders_existing:
  assumes "\<forall>s \<in> set (done @ rest). s \<noteq> [] \<and> 47 \<notin> set s"
    and "cur = joinWith (js ''/'') done"
    and "\<forall>k. 1 \<le> k \<and> k \<le> length rest \<longrightarrow> lookupPath (root v) (done @ take k rest) \<noteq> None"
  shows "ensureFolders v cur rest = (None, v)"
  using assms
proof (induction rest arbitrary: "done" cur)
  case Nil
  then show ?case by simp
next
  case (Cons folder rest)
  have ne: "folder \<noteq> []" using Cons.prems(1) by simp
  define cur' where "cur' = (if cur \<noteq> [] then cur @ js ''/'' @ folder else folder)"
  have dn: "\<forall>s \<in> set done. s \<noteq> []" using Cons.prems(1) by simp
  have "cur = [] \<longleftrightarrow> done = []"
    unfolding Cons.prems(2) using dn by (rule joinWith_eq_Nil)
  then have c: "cur' = joinWith (js ''/'') (done @ [folder])"
    unfolding cur'_def joinWith_snoc Cons.prems(2)[symmetric] by simp
  have "splitOn 47 cur' = done @ [folder]"
    unfolding c using Cons.prems(1) splitOn_joinWith[of "done @ [folder]" 47] by simp
  moreover have "lookupPath (root v) (done @ take 1 (folder # rest)) \<noteq> None"
    using Cons.prems(3)[rule_format, of 1] by simp
  ultimately have ex: "getAbstractFileByPath v cur' \<noteq> None"
    by (simp add: getAbstractFileByPath_def)
  have "ensureFolders v cur' rest = (None, v)"
  proof (rule Cons.IH[of "done @ [folder]"])
    show "\<forall>s \<in> set ((done @ [folder]) @ rest). s \<noteq> [] \<and> 47 \<notin> set s"
      using Cons.prems(1) by auto
    show "cur' = joinWith (js ''/'') (done @ [folder])" by (rule c)
    show "\<forall>k. 1 \<le> k \<and> k \<le> length rest \<longrightarrow>
            lookupPath (root v) ((done @ [folder]) @ take k rest) \<noteq> None"
    proof (intro allI impI)
      fix k assume "1 \<le> k \<and> k \<le> length rest"
      then have "lookupPath (root v) (done @ take (Suc k) (folder # rest)) \<noteq> None"
        using Cons.prems(3)[rule_format, of "Suc k"] by simp
      then show "lookupPath (root v) ((done @ [folder]) @ take k rest) \<noteq> None" by simp
    qed
  qed
  with ne ex show ?case by (auto simp: cur'_def Let_def)
qed

lemma ensureFolders_frame:
  assumes "lookupPath (root v) ps = Some (TFile k d)"
  shows "lookupPath (root (snd (ensureFolders v cur rest))) ps = Some (TFile k d)"
  using assms
proof (induction rest arbitrary: v cur)
  case Nil
  then show ?case by simp
next
  case (Cons folder rest)
  show ?case
  proof (cases "folder = []")
    case True
    with Cons show ?thesis by simp
  next
    case False
    define cur' where "cur' = (if cur \<noteq> [] then cur @ js ''/'' @ folder else folder)"
    show ?thesis
    proof (cases "getAbstractFileByPath v cur'")
      case (Some e)
      with False Cons show ?thesis by (simp add: cur'_def Let_def)
    next
      case None
      show ?thesis
      proof (cases "vaultCreateFolder v cur'")
        case (Inl e)
        with None False Cons.prems show ?thesis by (simp add: cur'_def Let_def)
      next
        case (Inr v')
        have "lookupPath (root v') ps = Some (TFile k d)"
          using vaultWrite_InrD(1)[OF Inr[unfolded vaultCreateFolder_def]] Cons.prems
          by (rule alterPath_addNode_frame)
        then have "lookupPath (root (snd (ensureFolders v' cur' rest))) ps = Some (TFile k d)"
          by (rule Cons.IH)
        with None False Inr show ?thesis by (simp add: cur'_def Let_def)
      qed
    qed
  qed
qed

section \<open>The parent of a path\<close>

lemma searchLast_None: "c \<notin> set b \<Longrightarrow> searchLast [c] b = None"
  by (induction b) auto

lemma searchLast_last_sep: "c \<notin> set b \<Longrightarrow> searchLast [c] (a @ c # b) = Some (length a)"
  by (induction a) (auto simp: searchLast_None)

lemma parentPath_split:
  assumes "47 \<in> set p"
  shows "splitOn 47 (substring p 0 (lastIndexOf p (js ''/''))) = butlast (splitOn 47 p)"
proof -
  define segs where "segs = splitOn 47 p"
  have p: "p = joinWith [47] segs" by (simp add: segs_def joinWith_splitOn)
  have free: "\<forall>s \<in> set segs. 47 \<notin> set s" by (auto simp: segs_def dest: splitOn_sep_free)
  have ne: "segs \<noteq> []" by (simp add: segs_def)
  have bl: "butlast segs \<noteq> []"
  proof
    assume "butlast segs = []"
    with ne have "segs = [last segs]" using append_butlast_last_id[of segs] by simp
    then obtain x where x: "segs = [x]" by blast
    then have "p = x" using p by simp
    with free x assms show False by simp
  qed
  have sl: "butlast segs @ [last segs] = segs" using ne by simp
  have "joinWith [47] (butlast segs @ [last segs]) = joinWith [47] (butlast segs) @ [47] @ last segs"
    using bl by (simp only: joinWith_snoc if_False)
  then have pj: "p = joinWith [47] (butlast segs) @ 47 # last segs"
    unfolding sl p by simp
  have "47 \<notin> set (last segs)" using free ne last_in_set[of segs] by blast
  then have "searchLast [47] p = Some (length (joinWith [47] (butlast segs)))"
    by (subst pj) (rule searchLast_last_sep)
  then have "lastIndexOf p (js ''/'') = int (length (joinWith [47] (butlast segs)))"
    by (simp add: lastIndexOf_def)
  then have "substring p 0 (lastIndexOf p (js ''/'')) = joinWith [47] (butlast segs)"
    using arg_cong[OF pj, of "take (length (joinWith [47] (butlast segs)))"]
    by (simp add: substring_take)
  moreover have "splitOn 47 (joinWith [47] (butlast segs)) = butlast segs"
    using bl free by (intro splitOn_joinWith) (auto dest: in_set_butlastD)
  ultimately show ?thesis by (simp add: segs_def)
qed

section \<open>Write gating\<close>

lemma ensureFolderExists_of_existing_file:
  assumes "getAbstractFileByPath v p = Some node" "47 \<in> set p" "[] \<notin> set (splitOn 47 p)"
  shows "ensureFolderExists v (substring p 0 (lastIndexOf p (js ''/''))) = (None, v)"
proof -
  define segs where "segs = splitOn 47 p"
  have l: "lookupPath (root v) segs = Some node"
    using assms(1) by (simp add: getAbstractFileByPath_def segs_def)
  have pp: "splitOn 47 (substring p 0 (lastIndexOf p (js ''/''))) = butlast segs"
    unfolding segs_def using assms(2) by (rule parentPath_split)
  have ne: "segs \<noteq> []" by (simp add: segs_def)
  have "ensureFolders v [] (butlast segs) = (None, v)"
  proof (rule ensureFolders_existing[of "[]"])
    show "\<forall>s \<in> set ([] @ butlast segs). s \<noteq> [] \<and> 47 \<notin> set s"
      using assms(3) by (auto simp: segs_def dest!: in_set_butlastD dest: splitOn_sep_free)
    show "[] = joinWith (js ''/'') []" by simp
    show "\<forall>k. 1 \<le> k \<and> k \<le> length (butlast segs)
            \<longrightarrow> lookupPath (root v) ([] @ take k (butlast segs)) \<noteq> None"
    proof (intro allI impI)
      fix k assume k: "1 \<le> k \<and> k \<le> length (butlast segs)"
      have "segs = take k (butlast segs) @ (drop k (butlast segs) @ [last segs])"
        using ne by (metis append_assoc append_butlast_last_id append_take_drop_id)
      moreover have "take k (butlast segs) \<noteq> []"
      proof -
        have "butlast segs \<noteq> []" using k by (cases "butlast segs") auto
        with k show ?thesis by (cases k) auto
      qed
      ultimately obtain n sub where "lookupPath (root v) (take k (butlast segs)) = Some (TFolder n sub)"
        using lookupPath_prefix_folder[of "root v" "take k (butlast segs)"
                "drop k (butlast segs) @ [last segs]" node] l
        by auto
      then show "lookupPath (root v) ([] @ take k (butlast segs)) \<noteq> None" by simp
    qed
  qed
  then show ?thesis unfolding ensureFolderExists_def pp .
qed

lemma vaultModify_existing_file:
  assumes "getAbstractFileByPath v p = Some (TFile n d)"
  shows "\<exists>v'. vaultModify v p c = Inr v' \<and> journal v' = journal v @ [Modify p c]
              \<and> getAbstractFileByPath v' p = Some (TFile (last (splitOn 47 p)) c)"
proof -
  define segs where "segs = splitOn 47 p"
  have ne: "segs \<noteq> []" by (simp add: segs_def)
  have "lookupPath (root v) (butlast segs @ [last segs]) = Some (TFile n d)"
    using assms ne by (simp add: getAbstractFileByPath_def segs_def)
  then obtain r where r: "alterPath (setContent c (last segs)) (butlast segs) (root v) = Some r"
    "lookupPath r (butlast segs @ [last segs]) = Some (TFile (last segs) c)"
    using alterPath_setContent_works by blast
  then show ?thesis
    using ne by (simp add: vaultModify_def vaultWrite_def Let_def segs_def[symmetric]
                   getAbstractFileByPath_def)
qed

section \<open>Writes of one file\<close>

lemma syncFile_text_existing:
  assumes "getFileContent api ownr rep fileItem = Inr (TextData text)"
    and "getAbstractFileByPath v (getLocalFilePath baseFolderPath (item_path fileItem))
           = Some (TFile n existingContent)"
    and "[] \<notin> set (splitOn 47 (getLocalFilePath baseFolderPath (item_path fileItem)))"
  shows "syncFile st api now v ownr rep brnch fileItem baseFolderPath =
           (if processedFor st now ownr rep brnch fileItem baseFolderPath text \<noteq> existingContent
            then (case vaultModify v (getLocalFilePath baseFolderPath (item_path fileItem))
                         (processedFor st now ownr rep brnch fileItem baseFolderPath text) of
                    Inl e \<Rightarrow> (Some e, v) | Inr v2 \<Rightarrow> (None, v2))
            else (None, v))"
proof -
  define p where "p = getLocalFilePath baseFolderPath (item_path fileItem)"
  have sl: "47 \<in> set p" by (simp add: p_def getLocalFilePath_def)
  have e: "ensureFolderExists v (substring p 0 (lastIndexOf p (js ''/''))) = (None, v)"
    using assms(2) sl assms(3) unfolding p_def[symmetric]
    by (rule ensureFolderExists_of_existing_file)
  show ?thesis
    unfolding syncFile_def assms(1) sum.case Let_def p_def[symmetric] e prod.case option.case
      fileData.case assms(2)[unfolded p_def[symmetric]] processedFor_def
    by simp
qed

text \<open>
  Claim C6. For a text file whose local path exists as a file (a path without empty
  pieces), \<open>syncFile\<close> calls \<open>vault.modify\<close> if and only if the processed content differs
  from the content of the local file: when they are equal the vault and its journal of
  calls are left as they are, and when they differ the one call added to the journal is
  the \<open>modify\<close> of that path with the processed content, after which the file has it.
\<close>

theorem syncFile_write_gating:
  assumes "getFileContent api ownr rep fileItem = Inr (TextData text)"
    and "getAbstractFileByPath v (getLocalFilePath baseFolderPath (item_path fileItem))
           = Some (TFile n existingContent)"
    and "[] \<notin> set (splitOn 47 (getLocalFilePath baseFolderPath (item_path fileItem)))"
  shows "(processedFor st now ownr rep brnch fileItem baseFolderPath text = existingContent
            \<longrightarrow> syncFile st api now v ownr rep brnch fileItem baseFolderPath = (None, v))
       \<and> (processedFor st now ownr rep brnch fileItem baseFolderPath text \<noteq> existingContent
            \<longrightarrow> (\<exists>v'. syncFile st api now v ownr rep brnch fileItem baseFolderPath = (None, v')
                     \<and> journal v' = journal v
                          @ [Modify (getLocalFilePath baseFolderPath (item_path fileItem))
                               (processedFor st now ownr rep brnch fileItem baseFolderPath text)]
                     \<and> getAbstractFileByPath v'
                          (getLocalFilePath baseFolderPath (item_path fileItem))
                        = Some (TFile
                             (last (splitOn 47
                                (getLocalFilePath baseFolderPath (item_path fileItem))))
                             (processedFor st now ownr rep brnch fileItem baseFolderPath text))))"
proof (intro conjI impI)
  assume "processedFor st now ownr rep brnch fileItem baseFolderPath text = existingContent"
  then show "syncFile st api now v ownr rep brnch fileItem baseFolderPath = (None, v)"
    by (simp add: syncFile_text_existing[OF assms])
next
  assume d: "processedFor st now ownr rep brnch fileItem baseFolderPath text \<noteq> existingContent"
  obtain v' where v': "vaultModify v (getLocalFilePath baseFolderPath (item_path fileItem))
         (processedFor st now ownr rep brnch fileItem baseFolderPath text) = Inr v'"
      "journal v' = journal v
         @ [Modify (getLocalFilePath baseFolderPath (item_path fileItem))
              (processedFor st now ownr rep brnch fileItem baseFolderPath text)]"
      "getAbstractFileByPath v' (getLocalFilePath baseFolderPath (item_path fileItem))
         = Some (TFile (last (splitOn 47 (getLocalFilePath baseFolderPath (item_path fileItem))))
                   (processedFor st now ownr rep brnch fileItem baseFolderPath text))"
    using vaultModify_existing_file[OF assms(2)] by blast
  have "syncFile st api now v ownr rep brnch fileItem baseFolderPath = (None, v')"
    using d by (simp add: syncFile_text_existing[OF assms] v'(1))
  with v'(2,3) show "\<exists>v'. syncFile st api now v ownr rep brnch fileItem baseFolderPath = (None, v')
                     \<and> journal v' = journal v
                          @ [Modify (getLocalFilePath baseFolderPath (item_path fileItem))
                               (processedFor st now ownr rep brnch fileItem baseFolderPath text)]
                     \<and> getAbstractFileByPath v'
                          (getLocalFilePath baseFolderPath (item_path fileItem))
                        = Some (TFile
                             (last (splitOn 47
                                (getLocalFilePath baseFolderPath (item_path fileItem))))
                             (processedFor st now ownr rep brnch fileItem baseFolderPath text))"
    by blast
qed

theorem syncFile_write_gating_witness:
  "syncFile sampleSettings sampleApi (js ''2026-01-01T00:00:00.000Z'')
     (sampleVault (processedFor sampleSettings (js ''2026-01-01T00:00:00.000Z'') (js ''octo'')
                     (js ''site'') (js ''main'') sampleItem (js ''Projects/octo/site'')
                     (js ''# Site'')))
     (js ''octo'') (js ''site'') (js ''main'') sampleItem (js ''Projects/octo/site'')
   = (None,
      sampleVault (processedFor sampleSettings (js ''2026-01-01T00:00:00.000Z'') (js ''octo'')
                     (js ''site'') (js ''main'') sampleItem (js ''Projects/octo/site'')
                     (js ''# Site'')))"
proof -
  define c where "c = processedFor sampleSettings (js ''2026-01-01T00:00:00.000Z'') (js ''octo'')
                     (js ''site'') (js ''main'') sampleItem (js ''Projects/octo/site'')
                     (js ''# Site'')"
  have 1: "getFileContent sampleApi (js ''octo'') (js ''site'') sampleItem
             = Inr (TextData (js ''# Site''))"
    by (simp add: getFileContent_def sampleApi_def)
  have 2: "getAbstractFileByPath (sampleVault c)
             (getLocalFilePath (js ''Projects/octo/site'') (item_path sampleItem))
           = Some (TFile (js ''README.md'') c)"
    by (simp add: getAbstractFileByPath_def sampleVault_def getLocalFilePath_def sampleItem_def)
  have 3: "[] \<notin> set (splitOn 47
             (getLocalFilePath (js ''Projects/octo/site'') (item_path sampleItem)))"
    by (simp add: getLocalFilePath_def sampleItem_def)
  show ?thesis
    unfolding c_def[symmetric]
    using syncFile_write_gating[OF 1 2 3, of sampleSettings "js ''2026-01-01T00:00:00.000Z''"
            "js ''main''"]
    by (simp add: c_def)
qed

section \<open>The loop of a repository\<close>

lemma ensureFolders_of_prefix:
  assumes l: "lookupPath (root v) (xs @ ys) = Some node" and ys: "ys \<noteq> []"
    and xs: "\<forall>s \<in> set xs. s \<noteq> [] \<and> 47 \<notin> set s"
  shows "ensureFolders v [] xs = (None, v)"
proof (rule ensureFolders_existing[of "[]"])
  show "\<forall>s \<in> set ([] @ xs). s \<noteq> [] \<and> 47 \<notin> set s" using xs by simp
  show "[] = joinWith (js ''/'') []" by simp
  show "\<forall>k. 1 \<le> k \<and> k \<le> length xs \<longrightarrow> lookupPath (root v) ([] @ take k xs) \<noteq> None"
  proof (intro allI impI)
    fix k assume k: "1 \<le> k \<and> k \<le> length xs"
    have e: "xs @ ys = take k xs @ (drop k xs @ ys)" by simp
    have t: "take k xs \<noteq> []" using k by (cases xs; cases k) auto
    have d: "drop k xs @ ys \<noteq> []" using ys by simp
    obtain n sub where "lookupPath (root v) (take k xs) = Some (TFolder n sub)"
      using lookupPath_prefix_folder[OF l[unfolded e] t d] by blast
    then show "lookupPath (root v) ([] @ take k xs) \<noteq> None" by simp
  qed
qed

lemma splitOn_localFilePath:
  "splitOn 47 (getLocalFilePath base path) = splitOn 47 base @ splitOn 47 path"
  by (simp add: getLocalFilePath_def splitOn_append_sep)

lemma ensureFolderExists_base:
  assumes "getAbstractFileByPath v (getLocalFilePath base path) = Some node"
    and "[] \<notin> set (splitOn 47 (getLocalFilePath base path))"
  shows "ensureFolderExists v base = (None, v)"
proof -
  have l: "lookupPath (root v) (splitOn 47 base @ splitOn 47 path) = Some node"
    using assms(1) by (simp add: getAbstractFileByPath_def splitOn_localFilePath)
  have x: "\<forall>s \<in> set (splitOn 47 base). s \<noteq> [] \<and> 47 \<notin> set s"
    using assms(2) by (auto simp: splitOn_localFilePath dest: splitOn_sep_free)
  show ?thesis
    unfolding ensureFolderExists_def
    using l splitOn_not_Nil x by (rule ensureFolders_of_prefix)
qed

lemma ensureFolders_journal:
  "\<exists>ops. journal (snd (ensureFolders v cur rest)) = journal v @ ops"
proof (induction rest arbitrary: v cur)
  case Nil
  then show ?case by simp
next
  case (Cons folder rest)
  show ?case
  proof (cases "folder = []")
    case True
    with Cons show ?thesis by simp
  next
    case False
    define cur' where "cur' = (if cur \<noteq> [] then cur @ js ''/'' @ folder else folder)"
    show ?thesis
    proof (cases "getAbstractFileByPath v cur'")
      case (Some e)
      with False Cons[of v cur'] show ?thesis by (simp add: cur'_def Let_def)
    next
      case None
      show ?thesis
      proof (cases "vaultCreateFolder v cur'")
        case (Inl e)
        with None False show ?thesis by (simp add: cur'_def Let_def)
      next
        case (Inr v')
        obtain ops where "journal (snd (ensureFolders v' cur' rest)) = journal v' @ ops"
          using Cons[of v' cur'] by blast
        moreover have "journal v' = journal v @ [CreateFolder cur']"
          using vaultWrite_InrD(2)[OF Inr[unfolded vaultCreateFolder_def]] .
        ultimately show ?thesis using False None Inr
          by (simp add: cur'_def Let_def)
      qed
    qed
  qed
qed

lemma vaultWrite_addNode_frame:
  assumes "vaultWrite v q (\<lambda>n. addNode (new n) n) op = Inr v'"
    and "getAbstractFileByPath v p = Some (TFile k d)"
  shows "getAbstractFileByPath v' p = Some (TFile k d)"
  using alterPath_addNode_frame[OF vaultWrite_InrD(1)[OF assms(1)]] assms(2)
  by (simp add: getAbstractFileByPath_def)

lemma vaultWrite_setContent_frame:
  assumes "vaultWrite v q (setContent c) op = Inr v'"
    and "getAbstractFileByPath v p = Some (TFile k d)" and "p \<noteq> q"
  shows "getAbstractFileByPath v' p = Some (TFile k d)"
proof -
  have "butlast (splitOn 47 q) @ [last (splitOn 47 q)] = splitOn 47 q" by simp
  moreover have "splitOn 47 p \<noteq> splitOn 47 q" using assms(3) splitOn_inject by blast
  ultimately have "splitOn 47 p \<noteq> butlast (splitOn 47 q) @ [last (splitOn 47 q)]" by simp
  from alterPath_setContent_frame[OF vaultWrite_InrD(1)[OF assms(1)] _ this] assms(2)
  show ?thesis by (simp add: getAbstractFileByPath_def)
qed

lemma keeps_refl: "keeps p k d v v"
  by (simp add: keeps_def)

lemma keeps_trans: "keeps p k d v v1 \<Longrightarrow> keeps p k d v1 v2 \<Longrightarrow> keeps p k d v v2"
  by (auto simp: keeps_def)

lemma keeps_ensureFolderExists: "keeps p k d v (snd (ensureFolderExists v q))"
  using ensureFolders_frame[of v "splitOn 47 p" k d "[]" "splitOn 47 q"]
    ensureFolders_journal[of v "[]" "splitOn 47 q"]
  by (simp add: keeps_def ensureFolderExists_def getAbstractFileByPath_def)

lemma keeps_addNode:
  "vaultWrite v q (\<lambda>n. addNode (new n) n) op = Inr v' \<Longrightarrow> keeps p k d v v'"
  using vaultWrite_addNode_frame[of v q new op v' p k d] vaultWrite_InrD(2)[of v q _ op v']
  by (simp add: keeps_def)

lemma keeps_setContent:
  "vaultWrite v q (setContent c) op = Inr v' \<Longrightarrow> p \<noteq> q \<Longrightarrow> keeps p k d v v'"
  using vaultWrite_setContent_frame[of v q c op v' p k d] vaultWrite_InrD(2)[of v q _ op v']
  by (simp add: keeps_def)

lemma syncFile_keeps:
  assumes "p \<noteq> getLocalFilePath base (item_path it)"
  shows "keeps p k d v (snd (syncFile st api now v ownr rep brnch it base))"
proof (cases "getFileContent api ownr rep it")
  case (Inl e)
  then show ?thesis by (simp add: syncFile_def keeps_refl)
next
  case (Inr content)
  define q where "q = getLocalFilePath base (item_path it)"
  obtain eo v1 where ef: "ensureFolderExists v (substring q 0 (lastIndexOf q (js ''/''))) = (eo, v1)"
    by (cases "ensureFolderExists v (substring q 0 (lastIndexOf q (js ''/'')))")
  have k1: "keeps p k d v v1"
    using keeps_ensureFolderExists[of p k d v "substring q 0 (lastIndexOf q (js ''/''))"]
    unfolding ef by simp
  have pq: "p \<noteq> q" using assms by (simp add: q_def)
  show ?thesis
  proof (cases eo)
    case (Some e)
    show ?thesis
      unfolding syncFile_def Inr sum.case Let_def q_def[symmetric] ef Some prod.case option.case
      using k1 by simp
  next
    case None
    have "keeps p k d v1 (snd (syncFile st api now v ownr rep brnch it base))"
      unfolding syncFile_def Inr sum.case Let_def q_def[symmetric] ef None prod.case option.case
      using pq
      by (auto simp: keeps_refl
            vaultModify_def vaultCreate_def vaultModifyBinary_def vaultCreateBinary_def
            intro: keeps_addNode keeps_setContent
            split: fileData.splits option.splits sum.splits vnode.splits)
    with k1 show ?thesis by (rule keeps_trans)
  qed
qed

lemma syncStep_keeps:
  assumes "(\<forall>e. getFileContent api ownr rep it \<noteq> Inl e)
             \<longrightarrow> p \<noteq> getLocalFilePath base (item_path it)"
    and "p \<notin> S"
  shows "keeps p k d v (fst (syncStep st api clock ownr rep brnch base (v, S) it))
       \<and> p \<notin> snd (syncStep st api clock ownr rep brnch base (v, S) it)"
proof (cases "getFileContent api ownr rep it")
  case (Inl e)
  then show ?thesis using assms(2) by (simp add: syncStep_def syncFile_def keeps_refl)
next
  case (Inr content)
  then have pq: "p \<noteq> getLocalFilePath base (item_path it)" using assms(1) by simp
  obtain eo v' where sf: "syncFile st api (clock (getLocalFilePath base (item_path it))) v ownr rep
                            brnch it base = (eo, v')"
    by (cases "syncFile st api (clock (getLocalFilePath base (item_path it))) v ownr rep
                 brnch it base")
  have "keeps p k d v v'"
    using syncFile_keeps[OF pq, of k d v st api "clock (getLocalFilePath base (item_path it))"
            ownr rep brnch]
    unfolding sf by simp
  then show ?thesis
    using pq assms(2) by (cases eo) (simp_all add: syncStep_def Let_def sf)
qed

lemma foldl_syncStep_keeps:
  assumes "\<forall>it \<in> set items. (\<forall>e. getFileContent api ownr rep it \<noteq> Inl e)
             \<longrightarrow> p \<noteq> getLocalFilePath base (item_path it)"
    and "p \<notin> S"
  shows "keeps p k d v (fst (foldl (syncStep st api clock ownr rep brnch base) (v, S) items))
       \<and> p \<notin> snd (foldl (syncStep st api clock ownr rep brnch base) (v, S) items)"
  using assms
proof (induction items arbitrary: v S)
  case Nil
  then show ?case by (simp add: keeps_refl)
next
  case (Cons it items)
  obtain v1 S1 where s1: "syncStep st api clock ownr rep brnch base (v, S) it = (v1, S1)"
    by (cases "syncStep st api clock ownr rep brnch base (v, S) it")
  have a: "keeps p k d v v1 \<and> p \<notin> S1"
    using syncStep_keeps[of api ownr rep it p base S k d v st clock brnch] Cons.prems
    unfolding s1 by simp
  have b: "keeps p k d v1 (fst (foldl (syncStep st api clock ownr rep brnch base) (v1, S1) items))
         \<and> p \<notin> snd (foldl (syncStep st api clock ownr rep brnch base) (v1, S1) items)"
    using Cons.prems(1) a by (intro Cons.IH) simp_all
  show ?case using a b by (auto simp: s1 intro: keeps_trans)
qed

section \<open>The pruning pass finds the file\<close>

lemma filesUnder_file:
  "TFile n d \<in> set cs \<Longrightarrow> (childPath fp n, d) \<in> set (filesUnder fp cs)"
  by (induction fp cs rule: filesUnder.induct) auto

lemma filesUnder_folder:
  "TFolder n sub \<in> set cs \<Longrightarrow> set (filesUnder (childPath fp n) sub) \<subseteq> set (filesUnder fp cs)"
  by (induction fp cs rule: filesUnder.induct) auto

lemma lookupPath_filesUnder:
  "lookupPath cs segs = Some (TFile k d)
     \<Longrightarrow> (fp @ [47] @ joinWith [47] segs, d) \<in> set (filesUnder fp cs)"
proof (induction segs arbitrary: cs fp)
  case Nil
  then show ?case by simp
next
  case (Cons n segs)
  show ?case
  proof (cases "segs = []")
    case True
    then have f: "findChild n cs = Some (TFile k d)"
      using Cons.prems by (simp split: option.splits)
    from findChild_SomeD[OF f] have "TFile k d \<in> set cs" "k = n" by auto
    then show ?thesis using filesUnder_file[of n d cs fp] True
      by (simp add: childPath_def)
  next
    case False
    then obtain m sub where f: "findChild n cs = Some (TFolder m sub)"
        and l: "lookupPath sub segs = Some (TFile k d)"
      using Cons.prems by (auto simp: lookupPath_Cons split: option.splits vnode.splits)
    from findChild_SomeD[OF f] have m: "TFolder m sub \<in> set cs" "m = n" by auto
    have "((fp @ [47] @ n) @ [47] @ joinWith [47] segs, d) \<in> set (filesUnder (fp @ [47] @ n) sub)"
      using l by (rule Cons.IH)
    then have "((fp @ [47] @ n) @ [47] @ joinWith [47] segs, d) \<in> set (filesUnder fp cs)"
      using filesUnder_folder[of n sub cs fp] m by (auto simp: childPath_def)
    then show ?thesis using False by (simp add: joinWith_Cons)
  qed
qed

lemma alterPath_const:
  "lookupPath cs ns = Some (TFolder k sub) \<Longrightarrow> \<exists>r. alterPath (\<lambda>x. Some l) ns cs = Some r"
proof (induction ns arbitrary: cs)
  case Nil
  then show ?case by simp
next
  case (Cons n ns)
  show ?case
  proof (cases "ns = []")
    case True
    then have "findChild n cs = Some (TFolder k sub)"
      using Cons.prems by (simp split: option.splits)
    then show ?thesis using True by simp
  next
    case False
    then obtain m sub' where f: "findChild n cs = Some (TFolder m sub')"
        and l: "lookupPath sub' ns = Some (TFolder k sub)"
      using Cons.prems by (auto simp: lookupPath_Cons split: option.splits vnode.splits)
    from Cons.IH[OF l] obtain r where "alterPath (\<lambda>x. Some l) ns sub' = Some r" by blast
    then show ?thesis using f by simp
  qed
qed

lemma pruneExtraneousFiles_deletes:
  assumes f: "getAbstractFileByPath v (getLocalFilePath base path) = Some (TFile k d)"
    and sp: "shouldPrune st api S (getLocalFilePath base path) d"
  shows "\<exists>deleted. journal (pruneExtraneousFiles st api v base S) = journal v @ map Delete deleted
           \<and> getLocalFilePath base path \<in> set deleted"
proof -
  have "lookupPath (root v) (splitOn 47 base @ splitOn 47 path) = Some (TFile k d)"
    using f by (simp add: getAbstractFileByPath_def splitOn_localFilePath)
  then obtain n sub where b: "lookupPath (root v) (splitOn 47 base) = Some (TFolder n sub)"
      and l: "lookupPath sub (splitOn 47 path) = Some (TFile k d)"
    using lookupPath_prefix_folder[of "root v" "splitOn 47 base" "splitOn 47 path"] by auto
  have "(base @ [47] @ joinWith [47] (splitOn 47 path), d) \<in> set (filesUnder base sub)"
    using l by (rule lookupPath_filesUnder)
  then have m: "(getLocalFilePath base path, d) \<in> set (filesUnder base sub)"
    by (simp add: joinWith_splitOn getLocalFilePath_def)
  obtain left deleted where pf: "pruneFolder st api S base sub = (left, deleted)"
    by (cases "pruneFolder st api S base sub")
  have d: "getLocalFilePath base path \<in> set deleted"
    using prune_deleted(1)[OF m sp] unfolding pf by simp
  obtain r where r: "alterPath (\<lambda>x. Some left) (splitOn 47 base) (root v) = Some r"
    using alterPath_const[OF b] by blast
  have "journal (pruneExtraneousFiles st api v base S) = journal v @ map Delete deleted"
    unfolding pruneExtraneousFiles_def getAbstractFileByPath_def b option.case vnode.case pf
      prod.case r
    by simp
  with d show ?thesis by blast
qed

section \<open>A file whose sync fails\<close>

lemma isMarkdownFile_localFilePath:
  "isMarkdownFile path \<Longrightarrow> isMarkdownFile (getLocalFilePath base path)"
proof -
  have "suffix s path \<Longrightarrow> suffix s (base @ 47 # path)" for s :: jsstring
    using suffix_appendI[of s path "base @ [47]"] by simp
  then show "isMarkdownFile path \<Longrightarrow> isMarkdownFile (getLocalFilePath base path)"
    by (auto simp: isMarkdownFile_def endsWith_def getLocalFilePath_def)
qed

lemma syncRepository_prune:
  assumes "st_pruneExtraneousFiles st"
    and "getAllSyncableFiles api ownr rep brnch (st_syncMediaFiles st) = Inr syncableFiles"
    and "syncableFiles \<noteq> []"
    and "ensureFolderExists v (repoFolderPath (st_baseFolder st) ownr rep) = (None, v)"
  shows "syncRepository st api clock v
           \<lparr>rc_owner = ownr, rc_repo = rep, rc_branch = brnch, rc_source = src\<rparr>
         = (None,
            pruneExtraneousFiles st api
              (fst (foldl (syncStep st api clock ownr rep brnch
                             (repoFolderPath (st_baseFolder st) ownr rep))
                      (v, {}) syncableFiles))
              (repoFolderPath (st_baseFolder st) ownr rep)
              (snd (foldl (syncStep st api clock ownr rep brnch
                             (repoFolderPath (st_baseFolder st) ownr rep))
                      (v, {}) syncableFiles)))"
  using assms by (simp add: syncRepository_def Let_def split_beta)

text \<open>
  Claim C4. Take a run of \<open>syncRepository\<close> with pruning enabled, and a Markdown file of
  the repository whose content cannot be fetched (the request fails for every item of the
  tree with that path), while the vault holds a local copy at the file's local path (a
  path without empty pieces) whose header gives provenance metadata. Then the local path
  is not in the synced set that the loop over the files builds, the run ends without an
  error, and the calls it adds to the journal of the vault include the deletion of the
  local copy.
\<close>

theorem failed_sync_prunes_local_copy:
  assumes "st_pruneExtraneousFiles st"
    and "getAllSyncableFiles api ownr rep brnch (st_syncMediaFiles st) = Inr syncableFiles"
    and "fileItem \<in> set syncableFiles"
    and "\<forall>it \<in> set syncableFiles. item_path it = item_path fileItem
           \<longrightarrow> (\<exists>e. getFileContent api ownr rep it = Inl e)"
    and "isMarkdownFile (item_path fileItem)"
    and "getAbstractFileByPath v
           (getLocalFilePath (repoFolderPath (st_baseFolder st) ownr rep) (item_path fileItem))
         = Some (TFile n c)"
    and "extractGitHubMetadata c \<noteq> None"
    and "[] \<notin> set (splitOn 47
           (getLocalFilePath (repoFolderPath (st_baseFolder st) ownr rep) (item_path fileItem)))"
  shows "getLocalFilePath (repoFolderPath (st_baseFolder st) ownr rep) (item_path fileItem)
           \<notin> snd (foldl (syncStep st api clock ownr rep brnch
                            (repoFolderPath (st_baseFolder st) ownr rep))
                     (v, {}) syncableFiles)
       \<and> fst (syncRepository st api clock v
                \<lparr>rc_owner = ownr, rc_repo = rep, rc_branch = brnch, rc_source = src\<rparr>) = None
       \<and> (\<exists>ops. journal (snd (syncRepository st api clock v
                    \<lparr>rc_owner = ownr, rc_repo = rep, rc_branch = brnch, rc_source = src\<rparr>))
                  = journal v @ ops
                \<and> Delete (getLocalFilePath (repoFolderPath (st_baseFolder st) ownr rep)
                            (item_path fileItem)) \<in> set ops)"
proof -
  define base where "base = repoFolderPath (st_baseFolder st) ownr rep"
  define p where "p = getLocalFilePath base (item_path fileItem)"
  define v2 where "v2 = fst (foldl (syncStep st api clock ownr rep brnch base) (v, {})
                               syncableFiles)"
  define S2 where "S2 = snd (foldl (syncStep st api clock ownr rep brnch base) (v, {})
                               syncableFiles)"
  note a = assms[unfolded base_def[symmetric] p_def[symmetric]]
  have ef: "ensureFolderExists v base = (None, v)"
    using a(6,8) unfolding p_def by (rule ensureFolderExists_base)
  have other: "\<forall>it \<in> set syncableFiles. (\<forall>e. getFileContent api ownr rep it \<noteq> Inl e)
                 \<longrightarrow> p \<noteq> getLocalFilePath base (item_path it)"
  proof (intro ballI impI)
    fix it
    assume it: "it \<in> set syncableFiles" and ne: "\<forall>e. getFileContent api ownr rep it \<noteq> Inl e"
    have "item_path it \<noteq> item_path fileItem" using a(4) it ne by blast
    then show "p \<noteq> getLocalFilePath base (item_path it)"
      by (simp add: p_def getLocalFilePath_def)
  qed
  have inv: "keeps p n c v v2 \<and> p \<notin> S2"
    unfolding v2_def S2_def using other by (rule foldl_syncStep_keeps) simp
  have f2: "getAbstractFileByPath v2 p = Some (TFile n c)"
    using inv a(6) by (simp add: keeps_def)
  obtain ops1 where j2: "journal v2 = journal v @ ops1"
    using inv by (auto simp: keeps_def)
  have md: "isMarkdownFile p"
    unfolding p_def using a(5) by (rule isMarkdownFile_localFilePath)
  have sp: "shouldPrune st api S2 p c"
    using shouldPrune_markdown[OF md, of S2 st api c] inv a(7) by simp
  obtain deleted where d: "journal (pruneExtraneousFiles st api v2 base S2)
                             = journal v2 @ map Delete deleted" "p \<in> set deleted"
    using pruneExtraneousFiles_deletes[OF f2[unfolded p_def] sp[unfolded p_def]]
    unfolding p_def by blast
  have ne: "syncableFiles \<noteq> []" using a(3) by auto
  have sr: "syncRepository st api clock v
              \<lparr>rc_owner = ownr, rc_repo = rep, rc_branch = brnch, rc_source = src\<rparr>
            = (None, pruneExtraneousFiles st api v2 base S2)"
    unfolding v2_def S2_def base_def
    using assms(1,2) ne ef[unfolded base_def] by (rule syncRepository_prune)
  have "journal (pruneExtraneousFiles st api v2 base S2) = journal v @ (ops1 @ map Delete deleted)"
    using d(1) j2 by simp
  moreover have "Delete p \<in> set (ops1 @ map Delete deleted)" using d(2) by simp
  ultimately have "\<exists>ops. journal (pruneExtraneousFiles st api v2 base S2) = journal v @ ops
                     \<and> Delete p \<in> set ops" by blast
  then show ?thesis
    unfolding base_def[symmetric] p_def[symmetric] S2_def[symmetric] sr
    using inv by simp
qed

theorem failed_sync_prunes_local_copy_witness:
  "js ''Projects/octo/site/README.md''
     \<notin> snd (foldl (syncStep sampleSettings failingApi (\<lambda>p. js ''2026-01-01T00:00:00.000Z'')
                      (js ''octo'') (js ''site'') (js ''main'') (js ''Projects/octo/site''))
               (sampleVault copiedContent, {}) [sampleItem])
   \<and> fst (syncRepository sampleSettings failingApi (\<lambda>p. js ''2026-01-01T00:00:00.000Z'')
            (sampleVault copiedContent)
            \<lparr>rc_owner = js ''octo'', rc_repo = js ''site'', rc_branch = js ''main'',
             rc_source = Manual\<rparr>) = None
   \<and> (\<exists>ops. journal (snd (syncRepository sampleSettings failingApi
                (\<lambda>p. js ''2026-01-01T00:00:00.000Z'') (sampleVault copiedContent)
                \<lparr>rc_owner = js ''octo'', rc_repo = js ''site'', rc_branch = js ''main'',
                 rc_source = Manual\<rparr>))
              = ops
            \<and> Delete (js ''Projects/octo/site/README.md'') \<in> set ops)"
proof -
  have 1: "st_pruneExtraneousFiles sampleSettings" by (simp add: sampleSettings_def)
  have 2: "getAllSyncableFiles failingApi (js ''octo'') (js ''site'') (js ''main'')
             (st_syncMediaFiles sampleSettings) = Inr [sampleItem]"
    by (simp add: getAllSyncableFiles_def failingApi_def sampleApi_def sampleItem_def
          endsWith_def suffix_def)
  have 3: "sampleItem \<in> set [sampleItem]" by simp
  have 4: "\<forall>it \<in> set [sampleItem]. item_path it = item_path sampleItem
             \<longrightarrow> (\<exists>e. getFileContent failingApi (js ''octo'') (js ''site'') it = Inl e)"
    by (simp add: getFileContent_def failingApi_def)
  have 5: "isMarkdownFile (item_path sampleItem)"
    by (simp add: isMarkdownFile_def sampleItem_def endsWith_def suffix_def)
  have b: "repoFolderPath (st_baseFolder sampleSettings) (js ''octo'') (js ''site'')
             = js ''Projects/octo/site''"
    by (simp add: repoFolderPath_def sampleSettings_def)
  have p: "getLocalFilePath (js ''Projects/octo/site'') (item_path sampleItem)
             = js ''Projects/octo/site/README.md''"
    by (simp add: getLocalFilePath_def sampleItem_def)
  have 6: "getAbstractFileByPath (sampleVault copiedContent)
             (getLocalFilePath (repoFolderPath (st_baseFolder sampleSettings) (js ''octo'')
                                  (js ''site'')) (item_path sampleItem))
           = Some (TFile (js ''README.md'') copiedContent)"
    unfolding b p by (simp add: getAbstractFileByPath_def sampleVault_def)
  have 7: "extractGitHubMetadata copiedContent \<noteq> None" by (simp only: copiedContent_metadata) simp
  have 8: "[] \<notin> set (splitOn 47
             (getLocalFilePath (repoFolderPath (st_baseFolder sampleSettings) (js ''octo'')
                                  (js ''site'')) (item_path sampleItem)))"
    unfolding b p by simp
  have j: "journal (sampleVault copiedContent) = []" by (simp add: sampleVault_def)
  show ?thesis
    using failed_sync_prunes_local_copy[OF 1 2 3 4 5 6 7 8,
            where clock = "\<lambda>p. js ''2026-01-01T00:00:00.000Z''" and src = Manual]
    unfolding b p j by simp
qed

section \<open>The folders that the scan reads\<close>

lemma scanExistingRepositories_alt:
  "scanExistingRepositories st v = repoIdsAt (splitOn 47 (st_baseFolder st)) (root v)"
  by (simp add: scanExistingRepositories_def repoIdsAt_def getAbstractFileByPath_def)

lemma alterPath_zoom:
  assumes "alterPath f (bs @ rest) cs = Some r" "bs \<noteq> []"
  shows "\<exists>k sub sub'. lookupPath cs bs = Some (TFolder k sub) \<and> alterPath f rest sub = Some sub'
           \<and> lookupPath r bs = Some (TFolder (last bs) sub')"
  using assms
proof (induction bs arbitrary: cs r)
  case Nil
  then show ?case by simp
next
  case (Cons n bs)
  from Cons.prems(1) obtain k sub r1 where f: "findChild n cs = Some (TFolder k sub)"
      and a: "alterPath f (bs @ rest) sub = Some r1"
      and r: "r = replaceChild n (TFolder n r1) cs"
    by (auto split: option.splits vnode.splits)
  have fr: "findChild n r = Some (TFolder n r1)"
    unfolding r using f by (intro findChild_replaceChild_same) auto
  show ?case
  proof (cases "bs = []")
    case True
    then show ?thesis using f a fr by (simp add: lookupPath_Cons)
  next
    case False
    from Cons.IH[OF a False] obtain k2 sub2 sub2' where
      "lookupPath sub bs = Some (TFolder k2 sub2)" "alterPath f rest sub2 = Some sub2'"
      "lookupPath r1 bs = Some (TFolder (last bs) sub2')" by blast
    then show ?thesis using f fr False by (simp add: lookupPath_Cons)
  qed
qed

lemma alterPath_repoIdsAt:
  assumes "alterPath f (bs @ rest) cs = Some r" "bs \<noteq> []"
  shows "\<exists>sub sub'. alterPath f rest sub = Some sub' \<and> repoIdsAt bs cs = ownerFoldersOf sub
           \<and> repoIdsAt bs r = ownerFoldersOf sub'"
proof -
  obtain k sub sub' where "lookupPath cs bs = Some (TFolder k sub)" "alterPath f rest sub = Some sub'"
      "lookupPath r bs = Some (TFolder (last bs) sub')"
    using alterPath_zoom[OF assms] by blast
  then have "alterPath f rest sub = Some sub' \<and> repoIdsAt bs cs = ownerFoldersOf sub
           \<and> repoIdsAt bs r = ownerFoldersOf sub'"
    by (simp add: repoIdsAt_def)
  then show ?thesis by blast
qed

lemma alterPath_addNode_works:
  assumes "alterPath (addNode new n) ns cs = Some r" "nodeName new = n"
  shows "lookupPath r (ns @ [n]) = Some new"
  using assms
proof (induction ns arbitrary: cs r)
  case Nil
  then have "findChild n cs = None" "r = cs @ [new]"
    by (auto simp: addNode_def split: if_splits)
  moreover have "findChild n cs = None \<Longrightarrow> findChild n (cs @ [new]) = Some new"
    using Nil.prems(2) by (induction cs) auto
  ultimately show ?case by (simp add: lookupPath_Cons)
next
  case (Cons a ns)
  from Cons.prems(1) obtain k sub r1 where f: "findChild a cs = Some (TFolder k sub)"
      and a: "alterPath (addNode new n) ns sub = Some r1"
      and r: "r = replaceChild a (TFolder a r1) cs"
    by (auto split: option.splits vnode.splits)
  have fr: "findChild a r = Some (TFolder a r1)"
    unfolding r using f by (intro findChild_replaceChild_same) auto
  have "lookupPath r1 (ns @ [n]) = Some new" using a Cons.prems(2) by (rule Cons.IH)
  then show ?case using fr by (simp add: lookupPath_Cons)
qed

section \<open>Owner and repository folders\<close>

lemma repoFoldersOf_append:
  "repoFoldersOf ow (xs @ ys) = repoFoldersOf ow xs @ repoFoldersOf ow ys"
  by (induction ow xs rule: repoFoldersOf.induct) auto

lemma ownerFoldersOf_append:
  "ownerFoldersOf (xs @ ys) = ownerFoldersOf xs @ ownerFoldersOf ys"
  by (induction xs rule: ownerFoldersOf.induct) auto

lemma repoFoldersOf_iff:
  "x \<in> set (repoFoldersOf ow cs) \<longleftrightarrow> (\<exists>r sub. TFolder r sub \<in> set cs \<and> x = ow @ js ''/'' @ r)"
  by (induction ow cs rule: repoFoldersOf.induct) auto

lemma ownerFoldersOf_iff:
  "x \<in> set (ownerFoldersOf cs) \<longleftrightarrow>
     (\<exists>ow sub. TFolder ow sub \<in> set cs \<and> x \<in> set (repoFoldersOf ow sub))"
  by (induction cs rule: ownerFoldersOf.induct) auto

lemma set_replaceChild: "set (replaceChild n new cs) \<subseteq> insert new (set cs)"
  by (induction cs) auto

lemma set_removeChild: "set (removeChild n cs) \<subseteq> set cs"
  by (induction cs) auto

lemma replaceChild_distinct:
  assumes "c \<in> set (replaceChild n new cs)" "nodeName c = n" "wfNodes cs"
  shows "c = new"
  using assms by (induction cs) (auto split: if_splits)

lemma replaceChild_other:
  assumes "c \<in> set (replaceChild n new cs)" "nodeName c \<noteq> n" "nodeName new = n"
  shows "c \<in> set cs"
  using assms by (induction cs) (auto split: if_splits)

lemma removeChild_distinct:
  assumes "c \<in> set (removeChild n cs)" "wfNodes cs"
  shows "nodeName c \<noteq> n"
  using assms
proof (induction cs)
  case Nil
  then show ?case by simp
next
  case (Cons a cs)
  show ?case
  proof (cases "nodeName a = n")
    case True
    then have "c \<in> set cs" using Cons.prems(1) by simp
    then have "nodeName c \<in> nodeName ` set cs" by (rule imageI)
    then show ?thesis using Cons.prems(2) True by auto
  next
    case False
    then show ?thesis using Cons by auto
  qed
qed

lemma wfNodes_names: "wfNodes cs \<Longrightarrow> c \<in> set cs \<Longrightarrow> wfNode c"
  by (induction cs) auto

lemma wfNodes_removeChild: "wfNodes cs \<Longrightarrow> wfNodes (removeChild n cs)"
proof (induction cs)
  case Nil
  then show ?case by simp
next
  case (Cons c cs)
  have "nodeName ` set (removeChild n cs) \<subseteq> nodeName ` set cs"
    using set_removeChild[of n cs] by blast
  with Cons show ?case by auto
qed

lemma names_replaceChild:
  "findChild n cs \<noteq> None \<Longrightarrow> nodeName new = n
     \<Longrightarrow> map nodeName (replaceChild n new cs) = map nodeName cs"
  by (induction cs) auto

lemma wfNodes_iff:
  "wfNodes cs \<longleftrightarrow> distinct (map nodeName cs) \<and> (\<forall>c \<in> set cs. wfNode c)"
  by (induction cs) auto

lemma wfNodes_replaceChild:
  assumes "wfNodes cs" "findChild n cs \<noteq> None" "nodeName new = n" "wfNode new"
  shows "wfNodes (replaceChild n new cs)"
proof -
  have "distinct (map nodeName (replaceChild n new cs))"
    using assms by (simp add: names_replaceChild wfNodes_iff)
  moreover have "\<forall>c \<in> set (replaceChild n new cs). wfNode c"
    using set_replaceChild[of n new cs] assms(1,4) by (auto simp: wfNodes_iff)
  ultimately show ?thesis by (simp add: wfNodes_iff)
qed

lemma wfNodes_alterPath:
  assumes "alterPath f ns cs = Some r" "wfNodes cs" "\<And>xs ys. wfNodes xs \<Longrightarrow> f xs = Some ys \<Longrightarrow> wfNodes ys"
  shows "wfNodes r"
  using assms(1,2)
proof (induction ns arbitrary: cs r)
  case Nil
  then show ?case using assms(3) by simp
next
  case (Cons a ns)
  from Cons.prems(1) obtain k sub r1 where f: "findChild a cs = Some (TFolder k sub)"
      and a: "alterPath f ns sub = Some r1"
      and r: "r = replaceChild a (TFolder a r1) cs"
    by (auto split: option.splits vnode.splits)
  from findChild_SomeD[OF f] have k: "k = a" "TFolder k sub \<in> set cs" by auto
  then have w: "wfNode (TFolder a sub)" using wfNodes_names[OF Cons.prems(2), of "TFolder k sub"] by simp
  then have "wfNodes r1" using Cons.IH[OF a] by simp
  then have "wfNode (TFolder a r1)" using w by simp
  then show ?case unfolding r using Cons.prems(2) f by (intro wfNodes_replaceChild) auto
qed

lemma wfNodes_dropNode: "wfNodes xs \<Longrightarrow> dropNode n xs = Some ys \<Longrightarrow> wfNodes ys"
  by (auto simp: dropNode_def wfNodes_removeChild split: if_splits)

section \<open>Writes below a repository folder\<close>

lemma repoFoldersOf_replaceChild:
  "findChild rp cs = Some (TFolder k sub)
     \<Longrightarrow> repoFoldersOf ow (replaceChild rp (TFolder rp x) cs) = repoFoldersOf ow cs"
proof (induction ow cs rule: repoFoldersOf.induct)
  case (1 ownerName)
  then show ?case by simp
next
  case (2 ownerName rep cs repoChildren)
  then show ?case by (auto split: if_splits)
next
  case (3 ownerName n c repoChildren)
  then show ?case by (auto split: if_splits)
qed

lemma ownerFoldersOf_replaceChild:
  "findChild ow cs = Some (TFolder k sub) \<Longrightarrow> repoFoldersOf ow sub' = repoFoldersOf ow sub
     \<Longrightarrow> ownerFoldersOf (replaceChild ow (TFolder ow sub') cs) = ownerFoldersOf cs"
proof (induction cs rule: ownerFoldersOf.induct)
  case 1
  then show ?case by simp
next
  case (2 ownerName repoChildren ownerChildren)
  then show ?case by (auto split: if_splits)
next
  case (3 n c ownerChildren)
  then show ?case by (auto split: if_splits)
qed

lemma ownerFoldersOf_replaceChild_subset:
  "set (ownerFoldersOf (replaceChild ow (TFolder ow sub') cs))
     \<subseteq> set (ownerFoldersOf cs) \<union> set (repoFoldersOf ow sub')"
proof (induction cs rule: ownerFoldersOf.induct)
  case 1
  then show ?case by simp
next
  case (2 ownerName repoChildren ownerChildren)
  then show ?case by auto
next
  case (3 n c ownerChildren)
  then show ?case by auto
qed

lemma alterPath_deep:
  assumes "alterPath f (ow # rp # rest) cs = Some cs'"
  shows "ownerFoldersOf cs' = ownerFoldersOf cs"
proof -
  from assms obtain k sub sub1 where f: "findChild ow cs = Some (TFolder k sub)"
      and a: "alterPath f (rp # rest) sub = Some sub1"
      and r: "cs' = replaceChild ow (TFolder ow sub1) cs"
    by (auto split: option.splits vnode.splits)
  from a obtain k2 rsub r1 where f2: "findChild rp sub = Some (TFolder k2 rsub)"
      and r2: "sub1 = replaceChild rp (TFolder rp r1) sub"
    by (auto split: option.splits vnode.splits)
  have "repoFoldersOf ow sub1 = repoFoldersOf ow sub"
    unfolding r2 using f2 by (rule repoFoldersOf_replaceChild)
  with f show ?thesis unfolding r by (rule ownerFoldersOf_replaceChild)
qed

lemma alterPath_addRepo:
  assumes "alterPath (addNode (TFolder rp []) rp) [ow] cs = Some cs'"
  shows "set (ownerFoldersOf cs') \<subseteq> insert (ow @ js ''/'' @ rp) (set (ownerFoldersOf cs))"
proof -
  from assms obtain k sub where f: "findChild ow cs = Some (TFolder k sub)"
      and r: "cs' = replaceChild ow (TFolder ow (sub @ [TFolder rp []])) cs"
    by (auto simp: addNode_def split: option.splits vnode.splits if_splits)
  from findChild_SomeD[OF f] have k: "k = ow" "TFolder k sub \<in> set cs" by auto
  have "set (repoFoldersOf ow sub) \<subseteq> set (ownerFoldersOf cs)"
  proof
    fix x assume "x \<in> set (repoFoldersOf ow sub)"
    then show "x \<in> set (ownerFoldersOf cs)"
      using k unfolding ownerFoldersOf_iff[of x cs] by blast
  qed
  then have "set (repoFoldersOf ow (sub @ [TFolder rp []]))
               \<subseteq> insert (ow @ js ''/'' @ rp) (set (ownerFoldersOf cs))"
    by (auto simp: repoFoldersOf_append)
  then show ?thesis
    unfolding r using ownerFoldersOf_replaceChild_subset[of ow "sub @ [TFolder rp []]" cs]
    by blast
qed

lemma addNode_owner:
  assumes "addNode (TFolder ow []) ow cs = Some cs'"
  shows "ownerFoldersOf cs' = ownerFoldersOf cs"
  using assms by (auto simp: addNode_def ownerFoldersOf_append split: if_splits)

lemma write_deep:
  assumes "alterPath f (bs @ ow # rp # rest) r = Some r'" "bs \<noteq> []"
  shows "repoIdsAt bs r' = repoIdsAt bs r"
  using alterPath_repoIdsAt[OF assms] alterPath_deep by metis

lemma write_repo:
  assumes "alterPath (addNode (TFolder rp []) rp) (bs @ [ow]) r = Some r'" "bs \<noteq> []"
  shows "set (repoIdsAt bs r') \<subseteq> insert (ow @ js ''/'' @ rp) (set (repoIdsAt bs r))"
  using alterPath_repoIdsAt[OF assms] alterPath_addRepo by metis

lemma write_owner:
  assumes "alterPath (addNode (TFolder ow []) ow) bs r = Some r'" "bs \<noteq> []"
  shows "repoIdsAt bs r' = repoIdsAt bs r"
proof -
  from assms(1) have "alterPath (addNode (TFolder ow []) ow) (bs @ []) r = Some r'" by simp
  from alterPath_repoIdsAt[OF this assms(2)] show ?thesis
    using addNode_owner by auto
qed

lemma lookupPath_prefix_None:
  assumes "lookupPath r P = None" "P \<noteq> []"
  shows "lookupPath r (P @ rest) = None"
  using assms by (cases "rest = []") (simp_all add: lookupPath_append)

lemma write_prefix:
  assumes "bs = P @ rest" "P \<noteq> []" "lookupPath r P = None"
    and "alterPath (addNode (TFolder (last P) []) (last P)) (butlast P) r = Some r'"
  shows "repoIdsAt bs r' = [] \<and> repoIdsAt bs r = []"
proof -
  have b: "repoIdsAt bs r = []"
    using lookupPath_prefix_None[OF assms(3,2), of rest] by (simp add: repoIdsAt_def assms(1))
  have "lookupPath r' (butlast P @ [last P]) = Some (TFolder (last P) [])"
    using assms(4) by (rule alterPath_addNode_works) simp
  then have l: "lookupPath r' P = Some (TFolder (last P) [])" using assms(2) by simp
  have "repoIdsAt bs r' = []"
  proof (cases "rest = []")
    case True
    then show ?thesis using l by (simp add: repoIdsAt_def assms(1))
  next
    case False
    then have "lookupPath r' (P @ rest) = None"
      using l assms(2) by (cases rest) (simp_all add: lookupPath_append)
    then show ?thesis by (simp add: repoIdsAt_def assms(1))
  qed
  with b show ?thesis by simp
qed

text \<open>
  Creating the folder of a path that is a prefix of the path of a repository folder, or
  goes through it, adds no more than this repository to the folders that the scan reads.
\<close>

lemma createFolder_grows:
  assumes P: "P \<noteq> []" and bs: "bs \<noteq> []"
    and cmp: "prefix P (bs @ [ow, rp]) \<or> prefix (bs @ [ow, rp]) P"
    and none: "lookupPath r P = None"
    and a: "alterPath (addNode (TFolder (last P) []) (last P)) (butlast P) r = Some r'"
  shows "set (repoIdsAt bs r') \<subseteq> insert (ow @ js ''/'' @ rp) (set (repoIdsAt bs r))"
proof -
  consider (deep) X where "P = bs @ ow # rp # X" "X \<noteq> []"
    | (repo) "P = bs @ [ow, rp]" | (owner) "P = bs @ [ow]" | (pre) "prefix P bs"
  proof -
    from cmp show ?thesis
    proof
      assume "prefix P (bs @ [ow, rp])"
      then have "prefix P ((bs @ [ow]) @ [rp])" by simp
      then have "P = bs @ [ow, rp] \<or> prefix P (bs @ [ow])" unfolding prefix_snoc by auto
      then have "P = bs @ [ow, rp] \<or> P = bs @ [ow] \<or> prefix P bs" unfolding prefix_snoc by auto
      then show ?thesis using repo owner pre by blast
    next
      assume "prefix (bs @ [ow, rp]) P"
      then obtain X where X: "P = (bs @ [ow, rp]) @ X" unfolding prefix_def by blast
      show ?thesis using X repo deep[of X] by (cases "X = []") auto
    qed
  qed
  then show ?thesis
  proof cases
    case deep
    then have "butlast P = bs @ ow # rp # butlast X" by (simp add: butlast_append)
    from write_deep[OF a[unfolded this] bs] show ?thesis by auto
  next
    case repo
    then have "butlast P = bs @ [ow]" "last P = rp" by (simp_all add: butlast_append)
    from write_repo[OF a[unfolded this] bs] show ?thesis .
  next
    case owner
    then have "butlast P = bs" "last P = ow" by simp_all
    from write_owner[OF a[unfolded this] bs] show ?thesis by auto
  next
    case pre
    then obtain rest where "bs = P @ rest" unfolding prefix_def by blast
    from write_prefix[OF this P none a] show ?thesis by simp
  qed
qed

lemma grows_refl: "grows bs x v v"
  by (auto simp: grows_def)

lemma grows_trans: "grows bs x v v1 \<Longrightarrow> grows bs x v1 v2 \<Longrightarrow> grows bs x v v2"
  by (auto simp: grows_def)

lemma grows_same: "repoIdsAt bs (root v') = repoIdsAt bs (root v) \<Longrightarrow> grows bs x v v'"
  by (auto simp: grows_def)

lemma ensureFolders_grows:
  assumes "\<forall>s \<in> set (done @ rest). 47 \<notin> set s" "\<forall>s \<in> set done. s \<noteq> []"
    and "cur = joinWith (js ''/'') done"
    and "prefix (bs @ [ow, rp]) (done @ filter (\<lambda>s. s \<noteq> []) rest)" and "bs \<noteq> []"
  shows "grows bs (ow @ js ''/'' @ rp) v (snd (ensureFolders v cur rest))"
  using assms(1-4)
proof (induction rest arbitrary: v "done" cur)
  case Nil
  then show ?case by (simp add: grows_refl)
next
  case (Cons folder rest)
  show ?case
  proof (cases "folder = []")
    case True
    have "grows bs (ow @ js ''/'' @ rp) v (snd (ensureFolders v cur rest))"
      using Cons.prems True by (intro Cons.IH[of "done"]) auto
    then show ?thesis using True by simp
  next
    case False
    define cur' where "cur' = (if cur \<noteq> [] then cur @ js ''/'' @ folder else folder)"
    define done' where "done' = done @ [folder]"
    have cd: "cur \<noteq> [] \<longleftrightarrow> done \<noteq> []"
      using joinWith_eq_Nil[OF Cons.prems(2), of "js ''/''"] Cons.prems(3) by simp
    have cur': "cur' = joinWith (js ''/'') done'"
      unfolding cur'_def done'_def joinWith_snoc using cd Cons.prems(3) by simp
    have free: "\<forall>s \<in> set done'. 47 \<notin> set s" using Cons.prems(1) by (simp add: done'_def)
    have "splitOn 47 (joinWith [47] done') = done'"
      using free by (intro splitOn_joinWith) (simp_all add: done'_def)
    then have sp: "splitOn 47 cur' = done'"
      unfolding cur' by simp
    have pre: "prefix (bs @ [ow, rp]) (done' @ filter (\<lambda>s. s \<noteq> []) rest)"
      using Cons.prems(4) False by (simp add: done'_def)
    have ih: "grows bs (ow @ js ''/'' @ rp) w (snd (ensureFolders w cur' rest))" for w
      using Cons.prems False pre cur' by (intro Cons.IH[of done']) (auto simp: done'_def)
    show ?thesis
    proof (cases "getAbstractFileByPath v cur'")
      case (Some e)
      with False ih[of v] show ?thesis by (simp add: cur'_def Let_def)
    next
      case None
      show ?thesis
      proof (cases "vaultCreateFolder v cur'")
        case (Inl e)
        with None False show ?thesis by (simp add: cur'_def Let_def grows_refl)
      next
        case (Inr v')
        have a: "alterPath (addNode (TFolder (last done') []) (last done')) (butlast done') (root v)
                   = Some (root v')"
          using vaultWrite_InrD(1)[OF Inr[unfolded vaultCreateFolder_def]] unfolding sp .
        have n: "lookupPath (root v) done' = None"
          using None by (simp add: getAbstractFileByPath_def sp)
        have "prefix done' (done' @ filter (\<lambda>s. s \<noteq> []) rest)" by simp
        with pre have cmp: "prefix done' (bs @ [ow, rp]) \<or> prefix (bs @ [ow, rp]) done'"
          using prefix_same_cases by blast
        have "set (repoIdsAt bs (root v'))
                \<subseteq> insert (ow @ js ''/'' @ rp) (set (repoIdsAt bs (root v)))"
          using _ assms(5) cmp n a by (rule createFolder_grows) (simp add: done'_def)
        then have "grows bs (ow @ js ''/'' @ rp) v v'" by (simp add: grows_def)
        then have "grows bs (ow @ js ''/'' @ rp) v (snd (ensureFolders v' cur' rest))"
          using ih[of v'] by (rule grows_trans)
        with None False Inr show ?thesis by (simp add: cur'_def Let_def)
      qed
    qed
  qed
qed

section \<open>A sync adds only the folder of its repository\<close>

lemma splitOn_repoFolderPath:
  "47 \<notin> set ow \<Longrightarrow> 47 \<notin> set rp
     \<Longrightarrow> splitOn 47 (repoFolderPath baseFolder ow rp) = splitOn 47 baseFolder @ [ow, rp]"
  by (simp add: repoFolderPath_def splitOn_append_sep splitOn_no_sep)

lemma filter_nonempty_id: "[] \<notin> set xs \<Longrightarrow> filter (\<lambda>s. s \<noteq> []) xs = xs"
  by (induction xs) auto

lemma ensureFolderExists_grows:
  assumes sp: "splitOn 47 p = bs @ [ow, rp] @ X" and bs: "bs \<noteq> []" "[] \<notin> set bs"
    and ne: "ow \<noteq> []" "rp \<noteq> []"
  shows "grows bs (ow @ js ''/'' @ rp) v (snd (ensureFolderExists v p))"
  unfolding ensureFolderExists_def
proof (rule ensureFolders_grows[of "[]"])
  show "\<forall>s \<in> set ([] @ splitOn 47 p). 47 \<notin> set s" by (auto dest: splitOn_sep_free)
  show "\<forall>s \<in> set []. s \<noteq> []" by simp
  show "[] = joinWith (js ''/'') []" by simp
  show "bs \<noteq> []" by (rule bs(1))
  have "filter (\<lambda>s. s \<noteq> []) (splitOn 47 p) = bs @ [ow, rp] @ filter (\<lambda>s. s \<noteq> []) X"
    unfolding sp using bs(2) ne by (simp add: filter_nonempty_id)
  then show "prefix (bs @ [ow, rp]) ([] @ filter (\<lambda>s. s \<noteq> []) (splitOn 47 p))" by simp
qed

lemma vaultWrite_deep_grows:
  assumes "vaultWrite v q f op = Inr v'" "splitOn 47 q = bs @ ow # rp # X" "X \<noteq> []" "bs \<noteq> []"
  shows "grows bs x v v'"
proof -
  have "butlast (splitOn 47 q) = bs @ ow # rp # butlast X"
    using assms(2,3) by (simp add: butlast_append)
  from vaultWrite_InrD(1)[OF assms(1), unfolded this]
  have "repoIdsAt bs (root v') = repoIdsAt bs (root v)" using assms(4) by (rule write_deep)
  then show ?thesis by (rule grows_same)
qed

lemma syncFile_grows:
  assumes bs: "[] \<notin> set (splitOn 47 baseFolder)"
    and ow: "ow \<noteq> []" "47 \<notin> set ow" and rp: "rp \<noteq> []" "47 \<notin> set rp"
  shows "grows (splitOn 47 baseFolder) (ow @ js ''/'' @ rp) v
           (snd (syncFile st api now v ownr rep brnch it (repoFolderPath baseFolder ow rp)))"
proof (cases "getFileContent api ownr rep it")
  case (Inl e)
  then show ?thesis by (simp add: syncFile_def grows_refl)
next
  case (Inr content)
  define bsg where "bsg = splitOn 47 baseFolder"
  define x where "x = ow @ js ''/'' @ rp"
  define q where "q = getLocalFilePath (repoFolderPath baseFolder ow rp) (item_path it)"
  have bne: "bsg \<noteq> []" by (simp add: bsg_def)
  have sq: "splitOn 47 q = bsg @ ow # rp # splitOn 47 (item_path it)"
    unfolding q_def bsg_def
    using ow(2) rp(2) by (simp add: splitOn_localFilePath splitOn_repoFolderPath)
  have "47 \<in> set q" by (simp add: q_def getLocalFilePath_def)
  then have "splitOn 47 (substring q 0 (lastIndexOf q (js ''/''))) = butlast (splitOn 47 q)"
    by (rule parentPath_split)
  then have sp: "splitOn 47 (substring q 0 (lastIndexOf q (js ''/'')))
                   = bsg @ [ow, rp] @ butlast (splitOn 47 (item_path it))"
    unfolding sq by (simp add: butlast_append)
  obtain eo v1 where ef: "ensureFolderExists v (substring q 0 (lastIndexOf q (js ''/''))) = (eo, v1)"
    by (cases "ensureFolderExists v (substring q 0 (lastIndexOf q (js ''/'')))")
  have k1: "grows bsg x v v1"
    using ensureFolderExists_grows[OF sp bne bs[unfolded bsg_def[symmetric]] ow(1) rp(1), of v]
    unfolding ef x_def by simp
  have w: "grows bsg x v1 v2" if "vaultWrite v1 q f op = Inr v2" for f op v2
    using that sq _ bne by (rule vaultWrite_deep_grows) simp
  show ?thesis
  proof (cases eo)
    case (Some e)
    show ?thesis
      unfolding syncFile_def Inr sum.case Let_def q_def[symmetric] ef Some prod.case option.case
        bsg_def[symmetric] x_def[symmetric]
      using k1 by simp
  next
    case None
    have "grows bsg x v1 (snd (syncFile st api now v ownr rep brnch it
                                 (repoFolderPath baseFolder ow rp)))"
      unfolding syncFile_def Inr sum.case Let_def q_def[symmetric] ef None prod.case option.case
      by (auto simp: grows_refl
            vaultModify_def vaultCreate_def vaultModifyBinary_def vaultCreateBinary_def
            intro: w
            split: fileData.splits option.splits sum.splits vnode.splits)
    with k1 show ?thesis unfolding bsg_def x_def by (rule grows_trans)
  qed
qed

lemma foldl_syncStep_grows:
  assumes bs: "[] \<notin> set (splitOn 47 baseFolder)"
    and ow: "ow \<noteq> []" "47 \<notin> set ow" and rp: "rp \<noteq> []" "47 \<notin> set rp"
  shows "grows (splitOn 47 baseFolder) (ow @ js ''/'' @ rp) v
           (fst (foldl (syncStep st api clock ownr rep brnch (repoFolderPath baseFolder ow rp))
                   (v, S) items))"
proof (induction items arbitrary: v S)
  case Nil
  then show ?case by (simp add: grows_refl)
next
  case (Cons it items)
  define base where "base = repoFolderPath baseFolder ow rp"
  obtain eo v1 where sf: "syncFile st api (clock (getLocalFilePath base (item_path it))) v ownr rep
                            brnch it base = (eo, v1)"
    by (cases "syncFile st api (clock (getLocalFilePath base (item_path it))) v ownr rep
                 brnch it base")
  have g: "grows (splitOn 47 baseFolder) (ow @ js ''/'' @ rp) v v1"
    using syncFile_grows[OF assms, of v st api "clock (getLocalFilePath base (item_path it))"
            ownr rep brnch it]
    unfolding base_def[symmetric] sf by simp
  obtain S1 where s1: "syncStep st api clock ownr rep brnch base (v, S) it = (v1, S1)"
    by (cases eo) (simp_all add: syncStep_def Let_def sf)
  show ?case
    unfolding base_def[symmetric] foldl_Cons s1
    using g Cons.IH[of v1 S1, unfolded base_def[symmetric]] by (rule grows_trans)
qed

lemma pruneExtraneousFiles_grows:
  assumes "47 \<notin> set ow" "47 \<notin> set rp"
  shows "grows (splitOn 47 baseFolder) x v
           (pruneExtraneousFiles st api v (repoFolderPath baseFolder ow rp) S)"
proof -
  have "repoIdsAt (splitOn 47 baseFolder) r = repoIdsAt (splitOn 47 baseFolder) (root v)"
    if "alterPath f (splitOn 47 (repoFolderPath baseFolder ow rp)) (root v) = Some r" for f r
    using that unfolding splitOn_repoFolderPath[OF assms]
    using write_deep[of f "splitOn 47 baseFolder" ow rp "[]" "root v" r] by simp
  then show ?thesis
    by (auto simp: pruneExtraneousFiles_def grows_def split_beta
          split: option.splits vnode.splits)
qed

lemma syncRepository_grows:
  assumes bs: "[] \<notin> set (splitOn 47 (st_baseFolder st))"
    and ow: "rc_owner c \<noteq> []" "47 \<notin> set (rc_owner c)"
    and rp: "rc_repo c \<noteq> []" "47 \<notin> set (rc_repo c)"
  shows "grows (splitOn 47 (st_baseFolder st)) (rc_owner c @ js ''/'' @ rc_repo c) v
           (snd (syncRepository st api clock v c))"
proof (cases "getAllSyncableFiles api (rc_owner c) (rc_repo c) (rc_branch c) (st_syncMediaFiles st)")
  case (Inl e)
  then show ?thesis by (simp add: syncRepository_def grows_refl)
next
  case (Inr files)
  define base where "base = repoFolderPath (st_baseFolder st) (rc_owner c) (rc_repo c)"
  define bsg where "bsg = splitOn 47 (st_baseFolder st)"
  define x where "x = rc_owner c @ js ''/'' @ rc_repo c"
  obtain eo v1 where ef: "ensureFolderExists v base = (eo, v1)"
    by (cases "ensureFolderExists v base")
  have "splitOn 47 base = bsg @ [rc_owner c, rc_repo c] @ []"
    unfolding base_def bsg_def using ow(2) rp(2) by (simp add: splitOn_repoFolderPath)
  from ensureFolderExists_grows[OF this _ bs[unfolded bsg_def[symmetric]] ow(1) rp(1), of v]
  have g1: "grows bsg x v v1" unfolding ef x_def by (simp add: bsg_def)
  define v2 where "v2 = fst (foldl (syncStep st api clock (rc_owner c) (rc_repo c) (rc_branch c)
                                     base) (v1, {}) files)"
  define S2 where "S2 = snd (foldl (syncStep st api clock (rc_owner c) (rc_repo c) (rc_branch c)
                                     base) (v1, {}) files)"
  have g2: "grows bsg x v1 v2"
    unfolding v2_def base_def bsg_def x_def using assms by (rule foldl_syncStep_grows)
  have g3: "grows bsg x v2 (pruneExtraneousFiles st api v2 base S2)"
    unfolding base_def bsg_def using ow(2) rp(2) by (rule pruneExtraneousFiles_grows)
  have g12: "grows bsg x v v2" using g1 g2 by (rule grows_trans)
  have g123: "grows bsg x v (pruneExtraneousFiles st api v2 base S2)" using g12 g3 by (rule grows_trans)
  have "snd (syncRepository st api clock v c)
          \<in> {v, v1, v2, pruneExtraneousFiles st api v2 base S2}"
    unfolding syncRepository_def Let_def Inr sum.case base_def[symmetric] ef
    by (cases eo) (simp_all add: split_beta v2_def S2_def)
  then show ?thesis
    unfolding bsg_def[symmetric] x_def[symmetric]
    using g1 g12 g123 grows_refl[of bsg x v] by auto
qed

lemma foldl_syncRepository_grows:
  assumes "[] \<notin> set (splitOn 47 (st_baseFolder st))"
    and "\<forall>c \<in> set configs. rc_owner c \<noteq> [] \<and> 47 \<notin> set (rc_owner c)
                              \<and> rc_repo c \<noteq> [] \<and> 47 \<notin> set (rc_repo c)"
  shows "set (repoIdsAt (splitOn 47 (st_baseFolder st))
                (root (foldl (\<lambda>v' repoConfig. snd (syncRepository st api clock v' repoConfig))
                         v configs)))
           \<subseteq> set (repoIdsAt (splitOn 47 (st_baseFolder st)) (root v))
               \<union> set (currentRepoIdsOf configs)"
  using assms(2)
proof (induction configs arbitrary: v)
  case Nil
  then show ?case by simp
next
  case (Cons c configs)
  define v1 where "v1 = snd (syncRepository st api clock v c)"
  have "grows (splitOn 47 (st_baseFolder st)) (rc_owner c @ js ''/'' @ rc_repo c) v v1"
    unfolding v1_def using assms(1) Cons.prems by (intro syncRepository_grows) simp_all
  moreover have "set (repoIdsAt (splitOn 47 (st_baseFolder st))
                (root (foldl (\<lambda>v' repoConfig. snd (syncRepository st api clock v' repoConfig))
                         v1 configs)))
           \<subseteq> set (repoIdsAt (splitOn 47 (st_baseFolder st)) (root v1))
               \<union> set (currentRepoIdsOf configs)"
    using Cons.prems by (intro Cons.IH) simp
  ultimately show ?case
    unfolding foldl_Cons v1_def[symmetric]
    by (auto simp: grows_def currentRepoIdsOf_def)
qed

section \<open>The folders left by a cleanup\<close>

lemma repoId_inject:
  assumes "a @ js ''/'' @ b = c @ js ''/'' @ d" "47 \<notin> set a" "47 \<notin> set c"
  shows "a = c \<and> b = d"
proof -
  have "splitOn 47 (a @ 47 # b) = splitOn 47 (c @ 47 # d)" using assms(1) by simp
  then have "a # splitOn 47 b = c # splitOn 47 d"
    using assms(2,3) by (simp add: splitOn_append_sep splitOn_no_sep)
  then show ?thesis using splitOn_inject by auto
qed

lemma findChild_wf: "wfNodes cs \<Longrightarrow> c \<in> set cs \<Longrightarrow> findChild (nodeName c) cs = Some c"
  by (induction cs) auto

lemma lookupPath_wf: "wfNodes cs \<Longrightarrow> lookupPath cs ns = Some node \<Longrightarrow> wfNode node"
proof (induction ns arbitrary: cs)
  case Nil
  then show ?case by simp
next
  case (Cons n ns)
  from Cons.prems(2) obtain c where f: "findChild n cs = Some c"
    by (auto split: option.splits)
  from findChild_SomeD[OF f] have c: "wfNode c" using wfNodes_names[OF Cons.prems(1)] by simp
  show ?case
  proof (cases "ns = []")
    case True
    then show ?thesis using Cons.prems(2) f c by simp
  next
    case False
    then obtain k sub where "c = TFolder k sub" "lookupPath sub ns = Some node"
      using Cons.prems(2) f by (auto split: vnode.splits)
    then show ?thesis using c Cons.IH[of sub] by simp
  qed
qed

lemma dropNode_owner:
  assumes "dropNode ow cs = Some cs'"
  shows "set (ownerFoldersOf cs') \<subseteq> set (ownerFoldersOf cs)"
proof
  fix x assume "x \<in> set (ownerFoldersOf cs')"
  then obtain o' sub where "TFolder o' sub \<in> set cs'" "x \<in> set (repoFoldersOf o' sub)"
    unfolding ownerFoldersOf_iff[of x cs'] by blast
  moreover have "set cs' \<subseteq> set cs"
    using assms set_removeChild[of ow cs] by (auto simp: dropNode_def split: if_splits)
  ultimately show "x \<in> set (ownerFoldersOf cs)"
    unfolding ownerFoldersOf_iff[of x cs] by blast
qed

lemma repoFoldersOf_removeChild:
  "set (repoFoldersOf ow (removeChild rp sub)) \<subseteq> set (repoFoldersOf ow sub)"
proof
  fix x assume "x \<in> set (repoFoldersOf ow (removeChild rp sub))"
  then show "x \<in> set (repoFoldersOf ow sub)"
    using set_removeChild[of rp sub] unfolding repoFoldersOf_iff by blast
qed

lemma dropNode_repo:
  assumes a: "alterPath (dropNode rp) [ow] cs = Some cs'"
  shows "set (ownerFoldersOf cs') \<subseteq> set (ownerFoldersOf cs)"
    and "wfNodes cs \<Longrightarrow> ow @ js ''/'' @ rp \<notin> set (ownerFoldersOf cs')"
proof -
  from a obtain k sub where f: "findChild ow cs = Some (TFolder k sub)"
      and r: "cs' = replaceChild ow (TFolder ow (removeChild rp sub)) cs"
    by (auto simp: dropNode_def split: option.splits vnode.splits if_splits)
  from findChild_SomeD[OF f] have k: "k = ow" "TFolder k sub \<in> set cs" by auto
  have s1: "set (repoFoldersOf ow sub) \<subseteq> set (ownerFoldersOf cs)"
  proof
    fix x assume "x \<in> set (repoFoldersOf ow sub)"
    then show "x \<in> set (ownerFoldersOf cs)"
      using k unfolding ownerFoldersOf_iff[of x cs] by blast
  qed
  show "set (ownerFoldersOf cs') \<subseteq> set (ownerFoldersOf cs)"
    unfolding r
    using ownerFoldersOf_replaceChild_subset[of ow "removeChild rp sub" cs]
      repoFoldersOf_removeChild[of ow rp sub] s1 by blast
  show "ow @ js ''/'' @ rp \<notin> set (ownerFoldersOf cs')" if wf: "wfNodes cs"
  proof
    assume "ow @ js ''/'' @ rp \<in> set (ownerFoldersOf cs')"
    then obtain o' s' where o': "TFolder o' s' \<in> set cs'"
        and "ow @ js ''/'' @ rp \<in> set (repoFoldersOf o' s')"
      unfolding ownerFoldersOf_iff[of _ cs'] by blast
    then obtain r' s2 where r': "TFolder r' s2 \<in> set s'" and e: "ow @ js ''/'' @ rp = o' @ js ''/'' @ r'"
      unfolding repoFoldersOf_iff by blast
    have wsub: "wfNode (TFolder ow sub)" using wfNodes_names[OF wf k(2)] k(1) by simp
    have "wfNodes cs'"
      unfolding r using wf f wsub by (intro wfNodes_replaceChild) (auto simp: wfNodes_removeChild)
    then have "wfNode (TFolder o' s')" using o' by (rule wfNodes_names)
    then have "ow = o' \<and> rp = r'" using e wsub by (intro repoId_inject) auto
    then have oo: "o' = ow" "r' = rp" by auto
    have "TFolder o' s' = TFolder ow (removeChild rp sub)"
      using o'[unfolded r] _ wf by (rule replaceChild_distinct) (simp add: oo)
    then have "TFolder rp s2 \<in> set (removeChild rp sub)" using r' oo by simp
    then have "nodeName (TFolder rp s2) \<noteq> rp"
      using wsub by (intro removeChild_distinct[of _ rp sub]) auto
    then show False by simp
  qed
qed

lemma alterPath_dropNode_exists:
  "lookupPath cs (ns @ [n]) = Some node \<Longrightarrow> \<exists>r. alterPath (dropNode n) ns cs = Some r"
proof (induction ns arbitrary: cs)
  case Nil
  then show ?case by (auto simp: dropNode_def split: option.splits)
next
  case (Cons a ns)
  from Cons.prems obtain m sub where f: "findChild a cs = Some (TFolder m sub)"
    and l: "lookupPath sub (ns @ [n]) = Some node"
    by (auto simp: lookupPath_Cons split: option.splits vnode.splits)
  from Cons.IH[OF l] obtain r where "alterPath (dropNode n) ns sub = Some r" by blast
  then show ?case using f by simp
qed

lemma deleteTree_wf: "wfNodes (root v) \<Longrightarrow> wfNodes (root (deleteTree v p deleted))"
  by (auto simp: deleteTree_def split: option.splits
        intro: wfNodes_alterPath[where f = "dropNode (last (splitOn 47 p))"] wfNodes_dropNode)

text \<open>Deleting the folder of a repository.\<close>

lemma deleteTree_repo:
  assumes "splitOn 47 p = bs @ [ow, rp]" "bs \<noteq> []"
  shows "set (repoIdsAt bs (root (deleteTree v p deleted))) \<subseteq> set (repoIdsAt bs (root v))"
    and "wfNodes (root v) \<Longrightarrow> lookupPath (root v) (bs @ [ow, rp]) \<noteq> None
           \<Longrightarrow> ow @ js ''/'' @ rp \<notin> set (repoIdsAt bs (root (deleteTree v p deleted)))"
proof -
  have bl: "butlast (splitOn 47 p) = bs @ [ow]" "last (splitOn 47 p) = rp"
    using assms(1) by (simp_all add: butlast_append)
  show "set (repoIdsAt bs (root (deleteTree v p deleted))) \<subseteq> set (repoIdsAt bs (root v))"
  proof (cases "alterPath (dropNode rp) (bs @ [ow]) (root v)")
    case None
    then show ?thesis by (simp add: deleteTree_def bl)
  next
    case (Some r)
    from alterPath_repoIdsAt[OF Some assms(2)] dropNode_repo(1)
    have "set (repoIdsAt bs r) \<subseteq> set (repoIdsAt bs (root v))" by metis
    then show ?thesis using Some by (simp add: deleteTree_def bl)
  qed
  show "ow @ js ''/'' @ rp \<notin> set (repoIdsAt bs (root (deleteTree v p deleted)))"
    if wf: "wfNodes (root v)" and l: "lookupPath (root v) (bs @ [ow, rp]) \<noteq> None"
  proof -
    from l obtain node where "lookupPath (root v) ((bs @ [ow]) @ [rp]) = Some node" by auto
    then obtain r where r: "alterPath (dropNode rp) (bs @ [ow]) (root v) = Some r"
      using alterPath_dropNode_exists by blast
    from alterPath_zoom[OF r assms(2)] obtain k sub sub' where
      z: "lookupPath (root v) bs = Some (TFolder k sub)" "alterPath (dropNode rp) [ow] sub = Some sub'"
         "lookupPath r bs = Some (TFolder (last bs) sub')" by blast
    have "wfNode (TFolder k sub)" using wf z(1) by (rule lookupPath_wf)
    then have "wfNodes sub" by simp
    then have "ow @ js ''/'' @ rp \<notin> set (ownerFoldersOf sub')" using dropNode_repo(2)[OF z(2)] by simp
    then show ?thesis using r z(3) by (simp add: deleteTree_def bl repoIdsAt_def)
  qed
qed

text \<open>Deleting the folder of an owner.\<close>

lemma deleteTree_owner:
  assumes "splitOn 47 p = bs @ [ow]" "bs \<noteq> []"
  shows "set (repoIdsAt bs (root (deleteTree v p deleted))) \<subseteq> set (repoIdsAt bs (root v))"
proof (cases "alterPath (dropNode ow) bs (root v)")
  case None
  then show ?thesis using assms(1) by (simp add: deleteTree_def)
next
  case (Some r)
  then have "alterPath (dropNode ow) (bs @ []) (root v) = Some r" by simp
  from alterPath_repoIdsAt[OF this assms(2)] dropNode_owner
  have "set (repoIdsAt bs r) \<subseteq> set (repoIdsAt bs (root v))" by (metis alterPath.simps(1))
  then show ?thesis using Some assms(1) by (simp add: deleteTree_def)
qed

text \<open>An identity that the scan reads names a folder of the vault.\<close>

lemma repoIdsAt_D:
  assumes "x \<in> set (repoIdsAt bs cs)" "wfNodes cs" "bs \<noteq> []"
  shows "\<exists>ow rp. x = ow @ js ''/'' @ rp \<and> ow \<noteq> [] \<and> 47 \<notin> set ow \<and> rp \<noteq> [] \<and> 47 \<notin> set rp
           \<and> lookupPath cs (bs @ [ow, rp]) \<noteq> None"
proof -
  have "\<exists>k owners. lookupPath cs bs = Some (TFolder k owners) \<and> x \<in> set (ownerFoldersOf owners)"
  proof (cases "lookupPath cs bs")
    case None
    then show ?thesis using assms(1) by (simp add: repoIdsAt_def)
  next
    case (Some node)
    then show ?thesis using assms(1) by (cases node) (simp_all add: repoIdsAt_def)
  qed
  then obtain k owners where l: "lookupPath cs bs = Some (TFolder k owners)"
      and x: "x \<in> set (ownerFoldersOf owners)" by blast
  from x obtain ow sub where o: "TFolder ow sub \<in> set owners" and "x \<in> set (repoFoldersOf ow sub)"
    unfolding ownerFoldersOf_iff[of x owners] by blast
  then obtain rp rsub where r: "TFolder rp rsub \<in> set sub" and e: "x = ow @ js ''/'' @ rp"
    unfolding repoFoldersOf_iff by blast
  have "wfNode (TFolder k owners)" using assms(2) l by (rule lookupPath_wf)
  then have wo: "wfNodes owners" by simp
  then have w1: "wfNode (TFolder ow sub)" using o by (rule wfNodes_names)
  then have ws: "wfNodes sub" by simp
  then have w2: "wfNode (TFolder rp rsub)" using r by (rule wfNodes_names)
  have f1: "findChild ow owners = Some (TFolder ow sub)" using findChild_wf[OF wo o] by simp
  have f2: "findChild rp sub = Some (TFolder rp rsub)" using findChild_wf[OF ws r] by simp
  have "lookupPath owners [ow, rp] = Some (TFolder rp rsub)" using f1 f2 by simp
  then have "lookupPath cs (bs @ [ow, rp]) = Some (TFolder rp rsub)"
    using l assms(3) by (simp add: lookupPath_append)
  then show ?thesis using e w1 w2 by auto
qed

lemma cleanupRepo_shrinks:
  assumes wf: "wfNodes (root v)"
  shows "wfNodes (root (cleanupRepo st v repoId))"
    and "set (scanExistingRepositories st (cleanupRepo st v repoId))
           \<subseteq> set (scanExistingRepositories st v) - {repoId}"
proof -
  define bs where "bs = splitOn 47 (st_baseFolder st)"
  have bne: "bs \<noteq> []" by (simp add: bs_def)
  have scan: "scanExistingRepositories st w = repoIdsAt bs (root w)" for w
    by (simp add: scanExistingRepositories_alt bs_def)
  have skip: "repoId \<notin> set (repoIdsAt bs (root v))"
    if "\<not> (\<exists>ow rp rest. splitOn 47 repoId = ow # rp # rest \<and> ow \<noteq> [] \<and> rp \<noteq> [])"
  proof
    assume "repoId \<in> set (repoIdsAt bs (root v))"
    from repoIdsAt_D[OF this wf bne] obtain ow rp where
      "repoId = ow @ js ''/'' @ rp" "ow \<noteq> []" "47 \<notin> set ow" "rp \<noteq> []" "47 \<notin> set rp" by blast
    then have "splitOn 47 repoId = [ow, rp] \<and> ow \<noteq> [] \<and> rp \<noteq> []"
      by (simp add: splitOn_append_sep splitOn_no_sep)
    with that show False by blast
  qed
  have main: "wfNodes (root (cleanupRepo st v repoId))
       \<and> set (repoIdsAt bs (root (cleanupRepo st v repoId)))
           \<subseteq> set (repoIdsAt bs (root v)) - {repoId}"
  proof (cases "\<exists>ow rp rest. splitOn 47 repoId = ow # rp # rest \<and> ow \<noteq> [] \<and> rp \<noteq> []")
    case False
    then have "cleanupRepo st v repoId = v"
      by (auto simp: cleanupRepo_def split: list.splits)
    then show ?thesis using wf skip[OF False] by auto
  next
    case True
    then obtain ow rp rest where sp: "splitOn 47 repoId = ow # rp # rest" and ne: "ow \<noteq> []" "rp \<noteq> []"
      by blast
    have free: "47 \<notin> set ow" "47 \<notin> set rp"
      using splitOn_sep_free[of ow 47 repoId] splitOn_sep_free[of rp 47 repoId] sp by auto
    define repoFolder where "repoFolder = repoFolderPath (st_baseFolder st) ow rp"
    define ownerFolder where "ownerFolder = st_baseFolder st @ js ''/'' @ ow"
    have srf: "splitOn 47 repoFolder = bs @ [ow, rp]"
      unfolding repoFolder_def bs_def using free by (rule splitOn_repoFolderPath)
    have sof: "splitOn 47 ownerFolder = bs @ [ow]"
      unfolding ownerFolder_def bs_def using free by (simp add: splitOn_append_sep splitOn_no_sep)
    define v1 where "v1 = (case getAbstractFileByPath v repoFolder of
                         Some (TFolder _ children) \<Rightarrow>
                           deleteTree v repoFolder (recursiveDeleteFolder repoFolder children)
                       | _ \<Rightarrow> v)"
    define v2 where "v2 = (case getAbstractFileByPath v1 ownerFolder of
                  Some (TFolder _ children) \<Rightarrow>
                    if length children = 0 then deleteTree v1 ownerFolder [ownerFolder]
                    else v1
                | _ \<Rightarrow> v1)"
    have c: "cleanupRepo st v repoId = v2"
      unfolding cleanupRepo_def sp list.case Let_def v2_def v1_def repoFolder_def ownerFolder_def
      using ne by simp
    have wf1: "wfNodes (root v1)"
      unfolding v1_def using wf by (auto split: option.splits vnode.splits intro: deleteTree_wf)
    have wf2: "wfNodes (root v2)"
      unfolding v2_def using wf1 by (auto split: option.splits vnode.splits intro: deleteTree_wf)
    have s1: "set (repoIdsAt bs (root v1)) \<subseteq> set (repoIdsAt bs (root v))"
      unfolding v1_def using deleteTree_repo(1)[OF srf bne]
      by (auto split: option.splits vnode.splits)
    have s2: "set (repoIdsAt bs (root v2)) \<subseteq> set (repoIdsAt bs (root v1))"
      unfolding v2_def using deleteTree_owner[OF sof bne]
      by (auto split: option.splits vnode.splits)
    have n1: "repoId \<notin> set (repoIdsAt bs (root v1))"
    proof
      assume a: "repoId \<in> set (repoIdsAt bs (root v1))"
      then have "repoId \<in> set (repoIdsAt bs (root v))" using s1 by blast
      from repoIdsAt_D[OF this wf bne] obtain ow' rp' where
        d: "repoId = ow' @ js ''/'' @ rp'" "47 \<notin> set ow'" "47 \<notin> set rp'"
           "lookupPath (root v) (bs @ [ow', rp']) \<noteq> None" by blast
      then have "splitOn 47 repoId = [ow', rp']"
        by (simp add: splitOn_append_sep splitOn_no_sep)
      with sp have oo: "ow' = ow" "rp' = rp" by auto
      have l: "lookupPath (root v) (bs @ [ow, rp]) \<noteq> None" using d(4) oo by simp
      obtain k sub where ls: "lookupPath (root v) bs = Some (TFolder k sub)"
        using l bne by (cases "lookupPath (root v) bs")
          (auto simp: lookupPath_append split: vnode.splits)
      have isFolder: "\<exists>n ch. lookupPath (root v) (bs @ [ow, rp]) = Some (TFolder n ch)"
      proof -
        from \<open>repoId \<in> set (repoIdsAt bs (root v))\<close> have "repoId \<in> set (ownerFoldersOf sub)"
          using ls by (simp add: repoIdsAt_def)
        then obtain o2 s2 where o2: "TFolder o2 s2 \<in> set sub" "repoId \<in> set (repoFoldersOf o2 s2)"
          unfolding ownerFoldersOf_iff[of repoId sub] by blast
        then obtain r2 t2 where r2: "TFolder r2 t2 \<in> set s2" "repoId = o2 @ js ''/'' @ r2"
          unfolding repoFoldersOf_iff by blast
        have "wfNode (TFolder k sub)" using wf ls by (rule lookupPath_wf)
        then have wsub: "wfNodes sub" by simp
        then have w2: "wfNode (TFolder o2 s2)" using o2(1) by (rule wfNodes_names)
        then have ws2: "wfNodes s2" by simp
        have "o2 = ow' \<and> r2 = rp'"
          using r2(2)[unfolded d(1)] w2 d(2) by (intro repoId_inject) auto
        then have e: "o2 = ow" "r2 = rp" using oo by auto
        have "findChild ow sub = Some (TFolder ow s2)" using findChild_wf[OF wsub o2(1)] e by simp
        moreover have "findChild rp s2 = Some (TFolder rp t2)"
          using findChild_wf[OF ws2 r2(1)] e by simp
        ultimately have "lookupPath sub [ow, rp] = Some (TFolder rp t2)" by simp
        then show ?thesis using ls bne by (simp add: lookupPath_append)
      qed
      then obtain n ch where "getAbstractFileByPath v repoFolder = Some (TFolder n ch)"
        by (auto simp: getAbstractFileByPath_def srf)
      then have "v1 = deleteTree v repoFolder (recursiveDeleteFolder repoFolder ch)"
        by (simp add: v1_def)
      then have "ow @ js ''/'' @ rp \<notin> set (repoIdsAt bs (root v1))"
        using deleteTree_repo(2)[OF srf bne wf l] by simp
      then show False using a d(1) oo by simp
    qed
    show ?thesis unfolding c using wf2 s1 s2 n1 by blast
  qed
  show "wfNodes (root (cleanupRepo st v repoId))" using main by simp
  show "set (scanExistingRepositories st (cleanupRepo st v repoId))
           \<subseteq> set (scanExistingRepositories st v) - {repoId}"
    using main by (simp add: scan)
qed

lemma foldl_cleanupRepo_shrinks:
  assumes "wfNodes (root v)"
  shows "set (scanExistingRepositories st (foldl (cleanupRepo st) v ids))
           \<subseteq> set (scanExistingRepositories st v) - set ids"
  using assms
proof (induction ids arbitrary: v)
  case Nil
  then show ?case by simp
next
  case (Cons a ids)
  have "set (scanExistingRepositories st (foldl (cleanupRepo st) (cleanupRepo st v a) ids))
          \<subseteq> set (scanExistingRepositories st (cleanupRepo st v a)) - set ids"
    using cleanupRepo_shrinks(1)[OF Cons.prems] by (rule Cons.IH)
  then show ?case using cleanupRepo_shrinks(2)[OF Cons.prems, of st a] by auto
qed

lemma cleanupRemovedRepositories_scan:
  assumes "wfNodes (root v)"
  shows "set (scanExistingRepositories st (cleanupRemovedRepositories st v currentRepoIds))
           \<subseteq> set currentRepoIds"
proof -
  define untracked where
    "untracked = filter (\<lambda>repoId. repoId \<notin> set currentRepoIds) (scanExistingRepositories st v)"
  have u: "set untracked \<subseteq> set (removedRepoIds st v currentRepoIds)"
  proof (cases "untracked = []")
    case True
    then show ?thesis by simp
  next
    case False
    then show ?thesis by (simp add: removedRepoIds_def Let_def untracked_def[symmetric])
  qed
  have s: "set (scanExistingRepositories st v) \<subseteq> set currentRepoIds \<union> set untracked"
    by (auto simp: untracked_def)
  show ?thesis
  proof (cases "removedRepoIds st v currentRepoIds = []")
    case True
    then show ?thesis using u s by (simp add: cleanupRemovedRepositories_def Let_def)
  next
    case False
    then show ?thesis
      using foldl_cleanupRepo_shrinks[OF assms, of st "removedRepoIds st v currentRepoIds"] u s
      by (auto simp: cleanupRemovedRepositories_def Let_def)
  qed
qed

section \<open>Cleanup after a run\<close>

lemma syncAll_scan:
  assumes "repoConfigs \<noteq> []" "wfNodes (root v)" "[] \<notin> set (splitOn 47 (st_baseFolder st))"
    and "\<forall>c \<in> set repoConfigs. rc_owner c \<noteq> [] \<and> 47 \<notin> set (rc_owner c)
                                 \<and> rc_repo c \<noteq> [] \<and> 47 \<notin> set (rc_repo c)"
  shows "fst (syncAll st api clock v repoConfigs)
           = st\<lparr>st_lastSyncedRepos := currentRepoIdsOf repoConfigs\<rparr>"
    and "set (scanExistingRepositories st (snd (syncAll st api clock v repoConfigs)))
           \<subseteq> set (currentRepoIdsOf repoConfigs)"
proof -
  define cur where "cur = currentRepoIdsOf repoConfigs"
  define v1 where "v1 = cleanupRemovedRepositories st v cur"
  define v2 where "v2 = foldl (\<lambda>v' repoConfig. snd (syncRepository st api clock v' repoConfig))
                          v1 repoConfigs"
  have sa: "syncAll st api clock v repoConfigs = (st\<lparr>st_lastSyncedRepos := cur\<rparr>, v2)"
    using assms(1) by (simp add: syncAll_def Let_def cur_def v1_def v2_def)
  show "fst (syncAll st api clock v repoConfigs)
           = st\<lparr>st_lastSyncedRepos := currentRepoIdsOf repoConfigs\<rparr>"
    by (simp add: sa cur_def)
  have "set (scanExistingRepositories st v1) \<subseteq> set cur"
    unfolding v1_def using assms(2) by (rule cleanupRemovedRepositories_scan)
  moreover have "set (scanExistingRepositories st v2)
                   \<subseteq> set (scanExistingRepositories st v1) \<union> set cur"
    unfolding scanExistingRepositories_alt v2_def cur_def
    using assms(3,4) by (rule foldl_syncRepository_grows)
  ultimately show "set (scanExistingRepositories st (snd (syncAll st api clock v repoConfigs)))
           \<subseteq> set (currentRepoIdsOf repoConfigs)"
    by (auto simp: sa cur_def)
qed

text \<open>
  Claim C5. Take a vault whose folders hold children with distinct, non-empty names
  without \<open>/\<close>, a base folder path without empty pieces, and a run of \<open>syncAll\<close> over at
  least one repository whose owner and name are non-empty and without \<open>/\<close>; the
  deletions of the run succeed. The run stores the current identities as
  \<open>lastSyncedRepos\<close>, and a cleanup with the same identities on the settings and the
  vault that the run leaves finds nothing to remove: the stored identities that are not
  current are none, the scanned folders that are not current are none, the removed set is
  empty, and the cleanup returns the vault as it is, with no call added to its journal.
\<close>

theorem cleanup_convergence:
  assumes "repoConfigs \<noteq> []"
    and "wfNodes (root v)"
    and "[] \<notin> set (splitOn 47 (st_baseFolder st))"
    and "\<forall>c \<in> set repoConfigs. rc_owner c \<noteq> [] \<and> 47 \<notin> set (rc_owner c)
                                 \<and> rc_repo c \<noteq> [] \<and> 47 \<notin> set (rc_repo c)"
    and "syncAll st api clock v repoConfigs = (st', v')"
  shows "st_lastSyncedRepos st' = currentRepoIdsOf repoConfigs
       \<and> filter (\<lambda>repoId. repoId \<notin> set (currentRepoIdsOf repoConfigs))
            (st_lastSyncedRepos st') = []
       \<and> filter (\<lambda>repoId. repoId \<notin> set (currentRepoIdsOf repoConfigs))
            (scanExistingRepositories st' v') = []
       \<and> removedRepoIds st' v' (currentRepoIdsOf repoConfigs) = []
       \<and> cleanupRemovedRepositories st' v' (currentRepoIdsOf repoConfigs) = v'"
proof -
  define cur where "cur = currentRepoIdsOf repoConfigs"
  have st': "st' = st\<lparr>st_lastSyncedRepos := cur\<rparr>"
    using syncAll_scan(1)[OF assms(1-4), of api clock] assms(5) by (simp add: cur_def)
  have "set (scanExistingRepositories st v') \<subseteq> set cur"
    using syncAll_scan(2)[OF assms(1-4), of api clock] assms(5) by (simp add: cur_def)
  moreover have "scanExistingRepositories st' v' = scanExistingRepositories st v'"
    by (simp add: scanExistingRepositories_def st')
  ultimately have sc: "filter (\<lambda>repoId. repoId \<notin> set cur) (scanExistingRepositories st' v') = []"
    by (auto simp: filter_empty_conv)
  have pv: "filter (\<lambda>repoId. repoId \<notin> set cur) (st_lastSyncedRepos st') = []"
    by (simp add: st')
  have rm: "removedRepoIds st' v' cur = []"
    unfolding removedRepoIds_def Let_def sc pv by simp
  have "cleanupRemovedRepositories st' v' cur = v'"
    unfolding cleanupRemovedRepositories_def Let_def rm by simp
  then show ?thesis
    unfolding cur_def[symmetric] using sc pv rm by (simp add: st')
qed

theorem cleanup_convergence_witness:
  "removedRepoIds
     (fst (syncAll sampleSettings sampleApi (\<lambda>p. js ''2026-01-01T00:00:00.000Z'') twoRepoVault
             [sampleConfig]))
     (snd (syncAll sampleSettings sampleApi (\<lambda>p. js ''2026-01-01T00:00:00.000Z'') twoRepoVault
             [sampleConfig]))
     [js ''octo/site''] = []
   \<and> cleanupRemovedRepositories
       (fst (syncAll sampleSettings sampleApi (\<lambda>p. js ''2026-01-01T00:00:00.000Z'') twoRepoVault
               [sampleConfig]))
       (snd (syncAll sampleSettings sampleApi (\<lambda>p. js ''2026-01-01T00:00:00.000Z'') twoRepoVault
               [sampleConfig]))
       [js ''octo/site'']
     = snd (syncAll sampleSettings sampleApi (\<lambda>p. js ''2026-01-01T00:00:00.000Z'') twoRepoVault
              [sampleConfig])"
proof -
  have 1: "[sampleConfig] \<noteq> []" by simp
  have 2: "wfNodes (root twoRepoVault)" by (simp add: twoRepoVault_def)
  have 3: "[] \<notin> set (splitOn 47 (st_baseFolder sampleSettings))"
    by (simp add: sampleSettings_def)
  have 4: "\<forall>c \<in> set [sampleConfig]. rc_owner c \<noteq> [] \<and> 47 \<notin> set (rc_owner c)
                                 \<and> rc_repo c \<noteq> [] \<and> 47 \<notin> set (rc_repo c)"
    by (simp add: sampleConfig_def)
  have 5: "syncAll sampleSettings sampleApi (\<lambda>p. js ''2026-01-01T00:00:00.000Z'') twoRepoVault
             [sampleConfig]
           = (fst (syncAll sampleSettings sampleApi (\<lambda>p. js ''2026-01-01T00:00:00.000Z'')
                     twoRepoVault [sampleConfig]),
              snd (syncAll sampleSettings sampleApi (\<lambda>p. js ''2026-01-01T00:00:00.000Z'')
                     twoRepoVault [sampleConfig]))"
    by simp
  have c: "currentRepoIdsOf [sampleConfig] = [js ''octo/site'']"
    by (simp add: currentRepoIdsOf_def sampleConfig_def)
  show ?thesis
    using cleanup_convergence[OF 1 2 3 4 5] unfolding c by simp
qed

section \<open>The calls of the pruning pass\<close>

lemma lookupPath_Cons_other:
  assumes "lookupPath cs segs = Some r" "nodeName x \<notin> nodeName ` set cs"
  shows "lookupPath (x # cs) segs = Some r"
proof (cases segs)
  case Nil
  then show ?thesis using assms(1) by simp
next
  case (Cons n ns)
  then obtain node where f: "findChild n cs = Some node"
    using assms(1) by (auto split: option.splits)
  from findChild_SomeD[OF f] have "n \<in> nodeName ` set cs" by auto
  then have "nodeName x \<noteq> n" using assms(2) by auto
  then show ?thesis using assms(1) Cons by simp
qed

text \<open>
  In a well-formed tree the path of a file or folder below a folder gives the names
  from the folder to it, and the lookup of these names finds it.
\<close>

lemma filesUnder_lookup:
  "wfNodes cs \<Longrightarrow> (p, c) \<in> set (filesUnder fp cs)
     \<Longrightarrow> \<exists>segs k. segs \<noteq> [] \<and> (\<forall>s \<in> set segs. 47 \<notin> set s)
           \<and> p = fp @ [47] @ joinWith [47] segs \<and> lookupPath cs segs = Some (TFile k c)"
proof (induction fp cs rule: filesUnder.induct)
  case (1 folderPath)
  then show ?case by simp
next
  case (2 folderPath n c0 children)
  show ?case
  proof (cases "(p, c) = (childPath folderPath n, c0)")
    case True
    have "[n] \<noteq> [] \<and> (\<forall>s \<in> set [n]. 47 \<notin> set s)
           \<and> p = folderPath @ [47] @ joinWith [47] [n]
           \<and> lookupPath (TFile n c0 # children) [n] = Some (TFile n c)"
      using True "2.prems"(1) by (simp add: childPath_def)
    then show ?thesis by blast
  next
    case False
    then have "(p, c) \<in> set (filesUnder folderPath children)" using "2.prems"(2) by auto
    moreover have "wfNodes children" using "2.prems"(1) by simp
    ultimately obtain segs k where s: "segs \<noteq> []" "\<forall>s \<in> set segs. 47 \<notin> set s"
        "p = folderPath @ [47] @ joinWith [47] segs" "lookupPath children segs = Some (TFile k c)"
      using "2.IH" by blast
    have "lookupPath (TFile n c0 # children) segs = Some (TFile k c)"
      using s(4) "2.prems"(1) by (intro lookupPath_Cons_other) simp_all
    with s show ?thesis by blast
  qed
next
  case (3 folderPath n sub children)
  from "3.prems"(2) consider
    (below) "(p, c) \<in> set (filesUnder (childPath folderPath n) sub)"
    | (rest) "(p, c) \<in> set (filesUnder folderPath children)" by auto
  then show ?case
  proof cases
    case below
    moreover have "wfNodes sub" using "3.prems"(1) by simp
    ultimately obtain segs k where s: "segs \<noteq> []" "\<forall>s \<in> set segs. 47 \<notin> set s"
        "p = childPath folderPath n @ [47] @ joinWith [47] segs"
        "lookupPath sub segs = Some (TFile k c)"
      using "3.IH"(1) by blast
    have "n # segs \<noteq> [] \<and> (\<forall>s \<in> set (n # segs). 47 \<notin> set s)
           \<and> p = folderPath @ [47] @ joinWith [47] (n # segs)
           \<and> lookupPath (TFolder n sub # children) (n # segs) = Some (TFile k c)"
      using s "3.prems"(1) by (simp add: childPath_def joinWith_Cons)
    then show ?thesis by blast
  next
    case rest
    moreover have "wfNodes children" using "3.prems"(1) by simp
    ultimately obtain segs k where s: "segs \<noteq> []" "\<forall>s \<in> set segs. 47 \<notin> set s"
        "p = folderPath @ [47] @ joinWith [47] segs" "lookupPath children segs = Some (TFile k c)"
      using "3.IH"(2) by blast
    have "lookupPath (TFolder n sub # children) segs = Some (TFile k c)"
      using s(4) "3.prems"(1) by (intro lookupPath_Cons_other) simp_all
    with s show ?thesis by blast
  qed
qed

lemma foldersUnder_lookup:
  "wfNodes cs \<Longrightarrow> q \<in> set (foldersUnder fp cs)
     \<Longrightarrow> \<exists>segs k sub. segs \<noteq> [] \<and> (\<forall>s \<in> set segs. 47 \<notin> set s)
           \<and> q = fp @ [47] @ joinWith [47] segs \<and> lookupPath cs segs = Some (TFolder k sub)"
proof (induction fp cs rule: foldersUnder.induct)
  case (1 folderPath)
  then show ?case by simp
next
  case (2 folderPath n c0 children)
  then have "q \<in> set (foldersUnder folderPath children)" "wfNodes children" by simp_all
  then obtain segs k sub where s: "segs \<noteq> []" "\<forall>s \<in> set segs. 47 \<notin> set s"
      "q = folderPath @ [47] @ joinWith [47] segs" "lookupPath children segs = Some (TFolder k sub)"
    using "2.IH" by blast
  have "lookupPath (TFile n c0 # children) segs = Some (TFolder k sub)"
    using s(4) "2.prems"(1) by (intro lookupPath_Cons_other) simp_all
  with s show ?case by blast
next
  case (3 folderPath n sub0 children)
  from "3.prems"(2) consider
    (here) "q = childPath folderPath n"
    | (below) "q \<in> set (foldersUnder (childPath folderPath n) sub0)"
    | (rest) "q \<in> set (foldersUnder folderPath children)" by auto
  then show ?case
  proof cases
    case here
    have "[n] \<noteq> [] \<and> (\<forall>s \<in> set [n]. 47 \<notin> set s)
           \<and> q = folderPath @ [47] @ joinWith [47] [n]
           \<and> lookupPath (TFolder n sub0 # children) [n] = Some (TFolder n sub0)"
      using here "3.prems"(1) by (simp add: childPath_def)
    then show ?thesis by blast
  next
    case below
    moreover have "wfNodes sub0" using "3.prems"(1) by simp
    ultimately obtain segs k sub where s: "segs \<noteq> []" "\<forall>s \<in> set segs. 47 \<notin> set s"
        "q = childPath folderPath n @ [47] @ joinWith [47] segs"
        "lookupPath sub0 segs = Some (TFolder k sub)"
      using "3.IH"(1) by blast
    have "n # segs \<noteq> [] \<and> (\<forall>s \<in> set (n # segs). 47 \<notin> set s)
           \<and> q = folderPath @ [47] @ joinWith [47] (n # segs)
           \<and> lookupPath (TFolder n sub0 # children) (n # segs) = Some (TFolder k sub)"
      using s "3.prems"(1) by (simp add: childPath_def joinWith_Cons)
    then show ?thesis by blast
  next
    case rest
    moreover have "wfNodes children" using "3.prems"(1) by simp
    ultimately obtain segs k sub where s: "segs \<noteq> []" "\<forall>s \<in> set segs. 47 \<notin> set s"
        "q = folderPath @ [47] @ joinWith [47] segs" "lookupPath children segs = Some (TFolder k sub)"
      using "3.IH"(2) by blast
    have "lookupPath (TFolder n sub0 # children) segs = Some (TFolder k sub)"
      using s(4) "3.prems"(1) by (intro lookupPath_Cons_other) simp_all
    with s show ?thesis by blast
  qed
qed

lemma path_names_inject:
  assumes "fp @ [47] @ joinWith [47] xs = fp @ [47] @ joinWith [47] ys"
    and "xs \<noteq> []" "ys \<noteq> []" "\<forall>s \<in> set xs. 47 \<notin> set s" "\<forall>s \<in> set ys. 47 \<notin> set s"
  shows "xs = ys"
proof -
  have "joinWith [47] xs = joinWith [47] ys" using assms(1) by simp
  then have "splitOn 47 (joinWith [47] xs) = splitOn 47 (joinWith [47] ys)" by simp
  then show ?thesis using assms(2-5) by (simp add: splitOn_joinWith)
qed

text \<open>
  Every call of \<open>vault.delete\<close> of the pruning pass is on a file that passes the test, or
  on a folder.
\<close>

lemma filesToDelete_D:
  "q \<in> set (filesToDelete st api sy fp cs)
     \<Longrightarrow> \<exists>c. (q, c) \<in> set (filesUnder fp cs) \<and> shouldPrune st api sy q c"
proof (induction cs)
  case Nil
  then show ?case by simp
next
  case (Cons x cs)
  then show ?case by (cases x) (auto split: if_splits)
qed

lemma prune_deleted_D:
  "q \<in> set (snd (pruneFolder st api sy fp cs))
     \<Longrightarrow> (\<exists>c. (q, c) \<in> set (filesUnder fp cs) \<and> shouldPrune st api sy q c)
         \<or> q \<in> set (foldersUnder fp cs)"
  "q \<in> set (snd (pruneChildren st api sy fp cs))
     \<Longrightarrow> (\<exists>c. (q, c) \<in> set (filesUnder fp cs) \<and> shouldPrune st api sy q c)
         \<or> q \<in> set (foldersUnder fp cs)"
  "length (filesToDelete st api sy fp cs) \<le> length cs"
proof (induction st api sy fp cs and st api sy fp cs and st api sy fp cs
       rule: pruneFolder_pruneChildren_filesToDelete.induct)
  case (1 st api sy fp cs)
  from "1.prems" have "q \<in> set (filesToDelete st api sy fp cs)
                        \<or> q \<in> set (snd (pruneChildren st api sy fp cs))"
    by (auto simp: split_beta)
  then show ?case using filesToDelete_D[of q st api sy fp cs] "1.IH"(1) by blast
next
  case (2 st api sy fp)
  then show ?case by simp
next
  case (3 st api sy fp n content cs)
  then show ?case by auto
next
  case (4 st api sy fp n sub cs)
  then show ?case by simp
next
  case (5 st api sy fp)
  then show ?case by simp
next
  case (6 st api sy fp n content cs)
  from "6.prems" have "q \<in> set (snd (pruneChildren st api sy fp cs))"
    by (auto simp: split_beta split: if_splits)
  then show ?case using "6.IH" by auto
next
  case (7 st api sy fp n sub cs)
  obtain sub' d1 where a: "pruneFolder st api sy (childPath fp n) sub = (sub', d1)"
    by (cases "pruneFolder st api sy (childPath fp n) sub") auto
  obtain left d2 where b: "pruneChildren st api sy fp cs = (left, d2)"
    by (cases "pruneChildren st api sy fp cs") auto
  from "7.prems" have "q \<in> set d1 \<or> q = childPath fp n \<or> q \<in> set d2"
    by (auto simp: a b simp del: pruneFolder.simps(1) split: if_splits)
  then consider (below) "q \<in> set d1" | (here) "q = childPath fp n" | (rest) "q \<in> set d2"
    by blast
  then show ?case
  proof cases
    case below
    then have "(\<exists>c. (q, c) \<in> set (filesUnder (childPath fp n) sub) \<and> shouldPrune st api sy q c)
         \<or> q \<in> set (foldersUnder (childPath fp n) sub)"
      using "7.IH"(1) a by simp
    then show ?thesis by auto
  next
    case here
    then show ?thesis by simp
  next
    case rest
    then have "(\<exists>c. (q, c) \<in> set (filesUnder fp cs) \<and> shouldPrune st api sy q c)
         \<or> q \<in> set (foldersUnder fp cs)"
      using "7.IH"(2)[OF a[symmetric]] b by simp
    then show ?thesis by auto
  qed
qed

lemma prune_keeps:
  assumes wf: "wfNodes cs" and f: "(p, c) \<in> set (filesUnder fp cs)"
    and n: "\<not> shouldPrune st api sy p c"
  shows "p \<notin> set (snd (pruneFolder st api sy fp cs))"
proof
  assume "p \<in> set (snd (pruneFolder st api sy fp cs))"
  from prune_deleted_D(1)[OF this] consider
    (aFile) c' where "(p, c') \<in> set (filesUnder fp cs)" "shouldPrune st api sy p c'"
    | (aFolder) "p \<in> set (foldersUnder fp cs)" by blast
  then show False
  proof cases
    case aFile
    from filesUnder_lookup[OF wf f] obtain xs k where x: "xs \<noteq> []" "\<forall>s \<in> set xs. 47 \<notin> set s"
        "p = fp @ [47] @ joinWith [47] xs" "lookupPath cs xs = Some (TFile k c)" by blast
    from filesUnder_lookup[OF wf aFile(1)] obtain ys k' where y: "ys \<noteq> []"
        "\<forall>s \<in> set ys. 47 \<notin> set s"
        "p = fp @ [47] @ joinWith [47] ys" "lookupPath cs ys = Some (TFile k' c')" by blast
    have "xs = ys" using x(3)[unfolded y(3)] x(1,2) y(1,2) path_names_inject[of fp ys xs] by simp
    then have "c = c'" using x(4) y(4) by simp
    then show False using n aFile(2) by simp
  next
    case aFolder
    from filesUnder_lookup[OF wf f] obtain xs k where x: "xs \<noteq> []" "\<forall>s \<in> set xs. 47 \<notin> set s"
        "p = fp @ [47] @ joinWith [47] xs" "lookupPath cs xs = Some (TFile k c)" by blast
    from foldersUnder_lookup[OF wf aFolder] obtain ys k' sub where y: "ys \<noteq> []"
        "\<forall>s \<in> set ys. 47 \<notin> set s"
        "p = fp @ [47] @ joinWith [47] ys" "lookupPath cs ys = Some (TFolder k' sub)" by blast
    have "xs = ys" using x(3)[unfolded y(3)] x(1,2) y(1,2) path_names_inject[of fp ys xs] by simp
    then show False using x(4) y(4) by simp
  qed
qed

section \<open>Pruning safety\<close>

text \<open>
  Claim C1. Take a Markdown file below a repository folder that is not in the synced
  set. When its content has no leading header (it does not start with the opening
  delimiter, or has no closing one) or its header lacks one of the keys \<open>github_repo\<close>,
  \<open>github_path\<close> and \<open>github_url\<close>, \<open>pruneFolder\<close> leaves the file in the folder and,
  in a well-formed tree, none of its calls of \<open>vault.delete\<close> is on the path of the
  file. When its content starts with a header block written by the header step for
  well-formed metadata, \<open>pruneFolder\<close> deletes the file. In all cases the file is left
  if and only if \<open>extractGitHubMetadata\<close> gives nothing for its content, and in a
  well-formed tree \<open>vault.delete\<close> is called on its path if and only if
  \<open>extractGitHubMetadata\<close> gives metadata.
\<close>

theorem pruneFolder_safety:
  assumes "(p, c) \<in> set (filesUnder folderPath children)"
    and "isMarkdownFile p" and "p \<notin> syncedFiles"
  shows "((\<not> startsWith c (js ''---\<newline>'') \<or> indexOf c (js ''\<newline>---\<newline>'') = -1
            \<or> js ''github_repo'' \<notin> set (headerKeys c)
            \<or> js ''github_path'' \<notin> set (headerKeys c)
            \<or> js ''github_url'' \<notin> set (headerKeys c))
           \<longrightarrow> (p, c) \<in> set (filesUnder folderPath
                               (fst (pruneFolder st api syncedFiles folderPath children)))
               \<and> (wfNodes children
                    \<longrightarrow> p \<notin> set (snd (pruneFolder st api syncedFiles folderPath children))))
       \<and> ((\<exists>now m body. wellFormedMetadata now m \<and> c = frontmatterBlock now m @ body)
           \<longrightarrow> (p, c) \<notin> set (filesUnder folderPath
                               (fst (pruneFolder st api syncedFiles folderPath children)))
               \<and> p \<in> set (snd (pruneFolder st api syncedFiles folderPath children)))
       \<and> ((p, c) \<in> set (filesUnder folderPath
                           (fst (pruneFolder st api syncedFiles folderPath children)))
           \<longleftrightarrow> extractGitHubMetadata c = None)
       \<and> (wfNodes children
            \<longrightarrow> (p \<in> set (snd (pruneFolder st api syncedFiles folderPath children))
                   \<longleftrightarrow> extractGitHubMetadata c \<noteq> None))"
proof -
  have sp: "shouldPrune st api syncedFiles p c \<longleftrightarrow> extractGitHubMetadata c \<noteq> None"
    using assms(2,3) by (rule shouldPrune_markdown)
  have left: "(p, c) \<in> set (filesUnder folderPath
                           (fst (pruneFolder st api syncedFiles folderPath children)))
           \<longleftrightarrow> extractGitHubMetadata c = None"
    using assms(1) by (simp add: prune_files(1) sp del: pruneFolder.simps(1))
  have calls: "p \<in> set (snd (pruneFolder st api syncedFiles folderPath children))
                 \<longleftrightarrow> extractGitHubMetadata c \<noteq> None" if wf: "wfNodes children"
  proof
    assume "p \<in> set (snd (pruneFolder st api syncedFiles folderPath children))"
    then have "shouldPrune st api syncedFiles p c"
      using prune_keeps[OF wf assms(1), of st api syncedFiles] by blast
    then show "extractGitHubMetadata c \<noteq> None" by (simp add: sp)
  next
    assume "extractGitHubMetadata c \<noteq> None"
    then have "shouldPrune st api syncedFiles p c" by (simp add: sp)
    with assms(1) show "p \<in> set (snd (pruneFolder st api syncedFiles folderPath children))"
      by (rule prune_deleted(1))
  qed
  have a: "extractGitHubMetadata c = None"
    if "\<not> startsWith c (js ''---\<newline>'') \<or> indexOf c (js ''\<newline>---\<newline>'') = -1
            \<or> js ''github_repo'' \<notin> set (headerKeys c)
            \<or> js ''github_path'' \<notin> set (headerKeys c)
            \<or> js ''github_url'' \<notin> set (headerKeys c)"
    using that extractGitHubMetadata_no_header[of c] extractGitHubMetadata_missing_key[of c]
    by blast
  have b: "extractGitHubMetadata c \<noteq> None \<and> p \<in> set (snd (pruneFolder st api syncedFiles folderPath children))"
    if "\<exists>now m body. wellFormedMetadata now m \<and> c = frontmatterBlock now m @ body"
  proof -
    from that obtain now m body where w: "wellFormedMetadata now m"
      and c: "c = frontmatterBlock now m @ body" by blast
    have e: "extractGitHubMetadata c \<noteq> None"
      using extract_written_header[OF w, of body] by (auto simp: c)
    then have "shouldPrune st api syncedFiles p c" by (simp add: sp)
    with assms(1) have "p \<in> set (snd (pruneFolder st api syncedFiles folderPath children))"
      by (rule prune_deleted(1))
    with e show ?thesis by simp
  qed
  show ?thesis
  proof (intro conjI impI)
    assume h: "\<not> startsWith c (js ''---\<newline>'') \<or> indexOf c (js ''\<newline>---\<newline>'') = -1
            \<or> js ''github_repo'' \<notin> set (headerKeys c)
            \<or> js ''github_path'' \<notin> set (headerKeys c)
            \<or> js ''github_url'' \<notin> set (headerKeys c)"
    then have "extractGitHubMetadata c = None" by (rule a)
    then show "(p, c) \<in> set (filesUnder folderPath
                           (fst (pruneFolder st api syncedFiles folderPath children)))"
      by (simp only: left)
    assume wf: "wfNodes children"
    have "extractGitHubMetadata c = None" using h by (rule a)
    then show "p \<notin> set (snd (pruneFolder st api syncedFiles folderPath children))"
      using calls[OF wf] by simp
  next
    assume h: "\<exists>now m body. wellFormedMetadata now m \<and> c = frontmatterBlock now m @ body"
    show "(p, c) \<notin> set (filesUnder folderPath
                           (fst (pruneFolder st api syncedFiles folderPath children)))"
      using b[OF h] by (simp only: left) simp
    show "p \<in> set (snd (pruneFolder st api syncedFiles folderPath children))"
      using b[OF h] by (rule conjunct2)
  next
    show "(p, c) \<in> set (filesUnder folderPath
                           (fst (pruneFolder st api syncedFiles folderPath children)))
           \<longleftrightarrow> extractGitHubMetadata c = None"
      by (rule left)
  next
    assume "wfNodes children"
    then show "p \<in> set (snd (pruneFolder st api syncedFiles folderPath children))
                 \<longleftrightarrow> extractGitHubMetadata c \<noteq> None"
      by (rule calls)
  qed
qed

lemma sample_wellFormed: "wellFormedMetadata (js ''2026-01-01T00:00:00.000Z'') sampleMetadata"
  by (simp add: wellFormedMetadata_def singleLineMetadata_def singleLine_def sampleMetadata_def
        isWhiteSpace_def)

theorem pruneFolder_safety_witness:
  "(js ''Projects/octo/site/notes.md'', js ''my own notes'')
     \<in> set (filesUnder (js ''Projects/octo/site'')
              (fst (pruneFolder sampleSettings sampleApi {} (js ''Projects/octo/site'')
                      sampleChildren)))
   \<and> js ''Projects/octo/site/notes.md''
     \<notin> set (snd (pruneFolder sampleSettings sampleApi {} (js ''Projects/octo/site'')
                     sampleChildren))
   \<and> js ''Projects/octo/site/docs/gone.md''
     \<in> set (snd (pruneFolder sampleSettings sampleApi {} (js ''Projects/octo/site'')
                     sampleChildren))"
proof -
  have md: "isMarkdownFile (js ''Projects/octo/site/notes.md'')"
      "isMarkdownFile (js ''Projects/octo/site/docs/gone.md'')"
    by (simp_all add: isMarkdownFile_def endsWith_def suffix_def)
  have f1: "(js ''Projects/octo/site/notes.md'', js ''my own notes'')
              \<in> set (filesUnder (js ''Projects/octo/site'') sampleChildren)"
    by (simp add: sampleChildren_def childPath_def)
  have f2: "(js ''Projects/octo/site/docs/gone.md'',
             frontmatterBlock (js ''2026-01-01T00:00:00.000Z'') sampleMetadata @ js ''gone'')
              \<in> set (filesUnder (js ''Projects/octo/site'') sampleChildren)"
    by (simp add: sampleChildren_def childPath_def)
  have n: "\<not> startsWith (js ''my own notes'') (js ''---\<newline>'')" by (simp add: startsWith_def)
  have wf: "wfNodes sampleChildren" by (simp add: sampleChildren_def)
  have "(js ''Projects/octo/site/notes.md'', js ''my own notes'')
     \<in> set (filesUnder (js ''Projects/octo/site'')
              (fst (pruneFolder sampleSettings sampleApi {} (js ''Projects/octo/site'')
                      sampleChildren)))
     \<and> js ''Projects/octo/site/notes.md''
     \<notin> set (snd (pruneFolder sampleSettings sampleApi {} (js ''Projects/octo/site'')
                     sampleChildren))"
    using pruneFolder_safety[OF f1 md(1), of "{}" sampleSettings sampleApi] n wf by blast
  moreover have "js ''Projects/octo/site/docs/gone.md''
     \<in> set (snd (pruneFolder sampleSettings sampleApi {} (js ''Projects/octo/site'')
                     sampleChildren))"
    using pruneFolder_safety[OF f2 md(2), of "{}" sampleSettings sampleApi] sample_wellFormed
    by blast
  ultimately show ?thesis by simp
qed

section \<open>The timestamp of a second run\<close>

text \<open>
  The claim C3 as stated fails on the timestamp. A first run at one time writes the
  header with that time. A second run at a later time, on the output of the first,
  finds the header and returns the text as it is: the \<open>synced_at\<close> line still gives the
  time of the first run, and the result is not what one run at the later time gives.
\<close>

theorem processFileContent_keeps_first_timestamp:
  "processFileContent (js ''2026-01-02T00:00:00.000Z'')
     (processFileContent (js ''2026-01-01T00:00:00.000Z'') (js ''# Title'') sampleMetadata
        sampleOptions)
     sampleMetadata sampleOptions
   = processFileContent (js ''2026-01-01T00:00:00.000Z'') (js ''# Title'') sampleMetadata
       sampleOptions
   \<and> includesStr
       (processFileContent (js ''2026-01-02T00:00:00.000Z'')
          (processFileContent (js ''2026-01-01T00:00:00.000Z'') (js ''# Title'') sampleMetadata
             sampleOptions)
          sampleMetadata sampleOptions)
       (js ''synced_at: 2026-01-01T00:00:00.000Z'')
   \<and> processFileContent (js ''2026-01-02T00:00:00.000Z'')
       (processFileContent (js ''2026-01-01T00:00:00.000Z'') (js ''# Title'') sampleMetadata
          sampleOptions)
       sampleMetadata sampleOptions
     \<noteq> processFileContent (js ''2026-01-02T00:00:00.000Z'') (js ''# Title'') sampleMetadata
         sampleOptions"
proof -
  define x where "x = afterHeader sampleMetadata sampleOptions (10 # js ''# Title'')"
  have sl: "singleLineMetadata t sampleMetadata"
    if "t = js ''2026-01-01T00:00:00.000Z'' \<or> t = js ''2026-01-02T00:00:00.000Z''" for t
    using that by (auto simp: singleLineMetadata_def singleLine_def sampleMetadata_def)
  have o: "optAddFrontmatter sampleOptions" by (simp add: sampleOptions_def)
  have b: "\<not> startsWith (js ''# Title'') hdr" by (simp add: startsWith_def hdr_def)
  have p1: "processFileContent (js ''2026-01-01T00:00:00.000Z'') (js ''# Title'') sampleMetadata
              sampleOptions
            = headerOnly (js ''2026-01-01T00:00:00.000Z'') sampleMetadata @ x"
    unfolding x_def using sl o b by (intro processFileContent_fresh) simp_all
  have p2: "processFileContent (js ''2026-01-02T00:00:00.000Z'') (js ''# Title'') sampleMetadata
              sampleOptions
            = headerOnly (js ''2026-01-02T00:00:00.000Z'') sampleMetadata @ x"
    unfolding x_def using sl o b by (intro processFileContent_fresh) simp_all
  have c: "closedHeader (headerOnly (js ''2026-01-01T00:00:00.000Z'') sampleMetadata)"
    using sl by (intro closedHeader_headerOnly) simp
  have "processFileContent (js ''2026-01-02T00:00:00.000Z'')
          (headerOnly (js ''2026-01-01T00:00:00.000Z'') sampleMetadata @ x)
          sampleMetadata sampleOptions
        = headerOnly (js ''2026-01-01T00:00:00.000Z'') sampleMetadata
            @ afterHeader sampleMetadata sampleOptions x"
    using c by (rule processFileContent_closed)
  also have "afterHeader sampleMetadata sampleOptions x = x"
    unfolding x_def using sample_target by (rule afterHeader_idem)
  finally have again: "processFileContent (js ''2026-01-02T00:00:00.000Z'')
          (headerOnly (js ''2026-01-01T00:00:00.000Z'') sampleMetadata @ x)
          sampleMetadata sampleOptions
        = headerOnly (js ''2026-01-01T00:00:00.000Z'') sampleMetadata @ x" .
  have "headerOnly (js ''2026-01-01T00:00:00.000Z'') sampleMetadata
          = (js ''---\<newline>github_repo: '' @ meta_owner sampleMetadata @ js ''/''
              @ meta_repo sampleMetadata @ js ''\<newline>github_path: '' @ meta_path sampleMetadata
              @ js ''\<newline>github_url: '' @ meta_githubUrl sampleMetadata @ js ''\<newline>'')
            @ (js ''synced_at: 2026-01-01T00:00:00.000Z'' @ js ''\<newline>readonly: true\<newline>---\<newline>'')"
    by (simp add: headerOnly_def)
  moreover have "includesStr
                   (js ''synced_at: 2026-01-01T00:00:00.000Z'' @ js ''\<newline>readonly: true\<newline>---\<newline>'')
                   (js ''synced_at: 2026-01-01T00:00:00.000Z'')"
    by (rule includesStr_prefix) simp
  ultimately have "includesStr (headerOnly (js ''2026-01-01T00:00:00.000Z'') sampleMetadata)
                     (js ''synced_at: 2026-01-01T00:00:00.000Z'')"
    by (simp only: includesStr_appendL)
  then have inc: "includesStr (headerOnly (js ''2026-01-01T00:00:00.000Z'') sampleMetadata @ x)
                     (js ''synced_at: 2026-01-01T00:00:00.000Z'')"
    by (rule includesStr_appendR)
  have ne: "headerOnly (js ''2026-01-01T00:00:00.000Z'') sampleMetadata @ x
              \<noteq> headerOnly (js ''2026-01-02T00:00:00.000Z'') sampleMetadata @ x"
    by (simp add: headerOnly_def)
  show ?thesis
    unfolding p1 p2 again using inc ne by (intro conjI) simp_all
qed

end
